theory Spec2Isabelle
  imports Main
begin

section \<open>Values of a request body\<close>

text \<open>
  \<^verbatim>\<open>express.json()\<close> hands the handler a parsed JSON object. The handler reads two of its
  properties, \<^verbatim>\<open>ids\<close> and \<^verbatim>\<open>priority\<close>; each is absent (\<^verbatim>\<open>undefined\<close>, here \<open>None\<close>) or a JSON
  value. Numbers are modelled as integers: the program never computes with a number of the
  request, it only stores it or turns it into a property key.
\<close>

datatype json =
    JNull
  | JBool bool
  | JNum int
  | JStr string
  | JArr "json list"
  | JObj "(string \<times> json) list"

record request =
  body_ids :: "json option"
  body_priority :: "json option"

text \<open>The operand of \<^verbatim>\<open>!ids\<close>: JavaScript's truthiness of a value.\<close>

fun truthy :: "json option \<Rightarrow> bool" where
  "truthy None = False"
| "truthy (Some JNull) = False"
| "truthy (Some (JBool b)) = b"
| "truthy (Some (JNum n)) = (n \<noteq> 0)"
| "truthy (Some (JStr s)) = (s \<noteq> [])"
| "truthy (Some (JArr xs)) = True"
| "truthy (Some (JObj kvs)) = True"

fun isArray :: "json option \<Rightarrow> bool" where
  "isArray (Some (JArr xs)) = True"
| "isArray v = False"

text \<open>\<^verbatim>\<open>ids.slice(i, j)\<close> for \<open>0 \<le> i \<le> j\<close>: the elements at the indices \<open>i\<close> to \<open>j - 1\<close> that exist.\<close>

definition slice :: "nat \<Rightarrow> nat \<Rightarrow> 'a list \<Rightarrow> 'a list" where
  "slice i j xs = take (j - i) (drop i xs)"

section \<open>Property keys and the priority table\<close>

text \<open>
  \<^verbatim>\<open>PRIORITY_VALUES[x]\<close> first turns \<open>x\<close> into a property key, a string. A string is its own
  key; \<^verbatim>\<open>null\<close>, booleans and numbers are printed; an array is the join of its elements with
  commas, \<^verbatim>\<open>null\<close> elements printing as the empty string; an object parsed from JSON prints
  as \<^verbatim>\<open>[object Object]\<close>, unless it has a property of its own named \<^verbatim>\<open>toString\<close>: that
  property is not callable, \<^verbatim>\<open>valueOf\<close> gives back the object, and the conversion throws a
  \<^verbatim>\<open>TypeError\<close>.
\<close>

datatype error = InvalidInput | NotFound | TypeError

definition digit :: "nat \<Rightarrow> char" where
  "digit d = ''0123456789'' ! d"

function show_nat :: "nat \<Rightarrow> string" where
  "show_nat n = (if n < 10 then [digit n] else show_nat (n div 10) @ [digit (n mod 10)])"
  by pat_completeness auto
termination
  by (relation "measure id") auto

declare show_nat.simps [simp del]

definition show_int :: "int \<Rightarrow> string" where
  "show_int i = (if i < 0 then CHR ''-'' # show_nat (nat (- i)) else show_nat (nat i))"

fun join :: "string \<Rightarrow> string list \<Rightarrow> string" where
  "join sep [] = []"
| "join sep [x] = x"
| "join sep (x # y # ys) = x @ sep @ join sep (y # ys)"

fun ToString :: "json \<Rightarrow> error + string"
  and ToStrings :: "json list \<Rightarrow> error + string list" where
  "ToString JNull = Inr ''null''"
| "ToString (JBool b) = Inr (if b then ''true'' else ''false'')"
| "ToString (JNum n) = Inr (show_int n)"
| "ToString (JStr s) = Inr s"
| "ToString (JArr xs) = (case ToStrings xs of Inl e \<Rightarrow> Inl e | Inr ts \<Rightarrow> Inr (join '','' ts))"
| "ToString (JObj kvs) =
     (if ''toString'' \<in> set (map fst kvs) then Inl TypeError else Inr ''[object Object]'')"
| "ToStrings [] = Inr []"
| "ToStrings (x # xs) =
     (case (if x = JNull then Inr [] else ToString x) of
        Inl e \<Rightarrow> Inl e
      | Inr t \<Rightarrow> (case ToStrings xs of Inl e \<Rightarrow> Inl e | Inr ts \<Rightarrow> Inr (t # ts)))"

text \<open>
  What a property read of \<^verbatim>\<open>PRIORITY_VALUES\<close> gives: one of its three numbers, a member it
  inherits from \<^verbatim>\<open>Object.prototype\<close> (a function or object, told apart by its name), or
  \<^verbatim>\<open>undefined\<close>.
\<close>

datatype looked_up = Num int | Inherited string | Undefined

definition object_prototype_keys :: "string list" where
  "object_prototype_keys =
     [''constructor'', ''__defineGetter__'', ''__defineSetter__'', ''hasOwnProperty'',
      ''__lookupGetter__'', ''__lookupSetter__'', ''isPrototypeOf'', ''propertyIsEnumerable'',
      ''toString'', ''valueOf'', ''__proto__'', ''toLocaleString'']"

definition PRIORITY_VALUES :: "string \<Rightarrow> looked_up" where
  "PRIORITY_VALUES k =
     (if k = ''HIGH'' then Num 0
      else if k = ''MEDIUM'' then Num 1
      else if k = ''LOW'' then Num 2
      else if k \<in> set object_prototype_keys then Inherited k
      else Undefined)"

definition PRIORITY_VALUES_at :: "json \<Rightarrow> error + looked_up" where
  "PRIORITY_VALUES_at p = (case ToString p of Inl e \<Rightarrow> Inl e | Inr k \<Rightarrow> Inr (PRIORITY_VALUES k))"

section \<open>Batches, ingestions and the state of the process\<close>

datatype status = yet_to_start | triggered | completed

type_synonym uuid = string
type_synonym addr = nat

record batch =
  batch_id :: uuid
  ids :: "json list"
  status :: status
  priority :: json
  created_time :: int

text \<open>
  A batch is one object, referenced from the queue, from its ingestion's \<^verbatim>\<open>batches\<close> array and
  from the loop's variable \<^verbatim>\<open>batch\<close>; an assignment to \<^verbatim>\<open>batch.status\<close> is seen through all of
  them. The batch objects therefore live in a heap, a list indexed by address, and the arrays
  hold addresses. An ingestion record is referenced from the store only and is kept there by
  value; its field \<^verbatim>\<open>status\<close> is \<open>ingestion_status\<close> here.
\<close>

record ingestion =
  ingestion_id :: uuid
  ingestion_status :: status
  batches :: "addr list"

text \<open>
  An activation of \<^verbatim>\<open>processBatches\<close> that has started and not returned is suspended at one
  of its two \<^verbatim>\<open>await\<close>s: on \<^verbatim>\<open>Promise.all\<close> of the fetches of a batch, or on the timer of 5000 ms.
\<close>

datatype activation = AwaitFetch addr | AwaitCooldown

record state =
  heap :: "batch list"
  ingestionStore :: "(uuid \<times> ingestion) list"
  processingQueue :: "addr list"
  isProcessing :: bool
  activations :: "activation list"
  uuid_calls :: nat
  clock_calls :: nat

definition init :: state where
  "init = \<lparr>heap = [], ingestionStore = [], processingQueue = [], isProcessing = False,
            activations = [], uuid_calls = 0, clock_calls = 0\<rparr>"

section \<open>The queue's order\<close>

text \<open>
  The comparator handed to \<^verbatim>\<open>processingQueue.sort\<close>. Both table reads of its condition are
  evaluated first, so it throws when either priority has no property key. When the two
  looked-up values differ (\<^verbatim>\<open>!==\<close>: numbers by value, inherited members by identity,
  \<^verbatim>\<open>undefined\<close> equal to itself) it returns their difference, which is \<^verbatim>\<open>NaN\<close> unless both are
  numbers; otherwise it returns the difference of the creation times.
\<close>

datatype number = Finite int | NaN

fun minus_looked_up :: "looked_up \<Rightarrow> looked_up \<Rightarrow> number" where
  "minus_looked_up (Num x) (Num y) = Finite (x - y)"
| "minus_looked_up v w = NaN"

definition comparator :: "batch \<Rightarrow> batch \<Rightarrow> error + number" where
  "comparator a b =
     (case PRIORITY_VALUES_at (priority a) of
        Inl e \<Rightarrow> Inl e
      | Inr va \<Rightarrow>
          (case PRIORITY_VALUES_at (priority b) of
             Inl e \<Rightarrow> Inl e
           | Inr vb \<Rightarrow>
               Inr (if va \<noteq> vb then minus_looked_up va vb
                    else Finite (created_time a - created_time b))))"

text \<open>
  \<^verbatim>\<open>Array.prototype.sort\<close> with a comparator: a stable sort that reads a \<^verbatim>\<open>NaN\<close> result as
  \<open>0\<close> and, when a call of the comparator throws, stops and leaves the array as it was. For a
  comparator that is a consistent order on the elements the language fixes the result, and it
  is the one computed here, by stable insertion from the right. For any other comparator the
  language leaves the order to the engine.
\<close>

fun positive :: "number \<Rightarrow> bool" where
  "positive (Finite v) = (0 < v)"
| "positive NaN = False"

fun insert_by :: "('a \<Rightarrow> 'a \<Rightarrow> error + number) \<Rightarrow> 'a \<Rightarrow> 'a list \<Rightarrow> error + 'a list" where
  "insert_by cmp x [] = Inr [x]"
| "insert_by cmp x (y # ys) =
     (case cmp x y of
        Inl e \<Rightarrow> Inl e
      | Inr v \<Rightarrow>
          if positive v
          then (case insert_by cmp x ys of Inl e \<Rightarrow> Inl e | Inr zs \<Rightarrow> Inr (y # zs))
          else Inr (x # y # ys))"

fun sort_by :: "('a \<Rightarrow> 'a \<Rightarrow> error + number) \<Rightarrow> 'a list \<Rightarrow> error + 'a list" where
  "sort_by cmp [] = Inr []"
| "sort_by cmp (x # xs) =
     (case sort_by cmp xs of Inl e \<Rightarrow> Inl e | Inr ys \<Rightarrow> insert_by cmp x ys)"

definition sort_queue :: "batch list \<Rightarrow> addr list \<Rightarrow> error + addr list" where
  "sort_queue h q = sort_by (\<lambda>a b. comparator (h ! a) (h ! b)) q"

section \<open>updateIngestionStatus\<close>

fun findIndex :: "('a \<Rightarrow> bool) \<Rightarrow> 'a list \<Rightarrow> nat option" where
  "findIndex P [] = None"
| "findIndex P (x # xs) =
     (if P x then Some 0 else (case findIndex P xs of None \<Rightarrow> None | Some i \<Rightarrow> Some (Suc i)))"

definition overall_status :: "batch list \<Rightarrow> addr list \<Rightarrow> status" where
  "overall_status h bs =
     (let allCompleted = list_all (\<lambda>b. status (h ! b) = completed) bs;
          anyTriggered = list_ex (\<lambda>b. status (h ! b) = triggered) bs
      in if allCompleted then completed
         else if anyTriggered then triggered
         else yet_to_start)"

text \<open>
  The scan of the store's entries in insertion order: the first ingestion that holds a batch
  with the updated batch's id has that entry replaced by the updated batch and its status
  recomputed, and the scan stops there (\<^verbatim>\<open>break\<close>).
\<close>

fun update_entries :: "batch list \<Rightarrow> addr \<Rightarrow> (uuid \<times> ingestion) list \<Rightarrow> (uuid \<times> ingestion) list" where
  "update_entries h u [] = []"
| "update_entries h u ((k, d) # es) =
     (case findIndex (\<lambda>b. batch_id (h ! b) = batch_id (h ! u)) (batches d) of
        None \<Rightarrow> (k, d) # update_entries h u es
      | Some i \<Rightarrow>
          (let bs = (batches d)[i := u]
           in (k, d\<lparr>batches := bs, ingestion_status := overall_status h bs\<rparr>) # es))"

definition updateIngestionStatus :: "addr \<Rightarrow> state \<Rightarrow> state" where
  "updateIngestionStatus updatedBatch s =
     s\<lparr>ingestionStore := update_entries (heap s) updatedBatch (ingestionStore s)\<rparr>"

section \<open>processBatches\<close>

definition set_status :: "addr \<Rightarrow> status \<Rightarrow> state \<Rightarrow> state" where
  "set_status b v s = s\<lparr>heap := (heap s)[b := (heap s ! b)\<lparr>status := v\<rparr>]\<rparr>"

text \<open>
  From the test of the \<^verbatim>\<open>while\<close> to the next suspension: with an empty queue the loop ends
  and clears the flag; otherwise the front batch is shifted off, set to triggered and
  reconciled, its fetches are started, and the activation waits for them.
\<close>

definition loop_head :: "state \<Rightarrow> state \<times> activation option" where
  "loop_head s =
     (case processingQueue s of
        [] \<Rightarrow> (s\<lparr>isProcessing := False\<rparr>, None)
      | b # q \<Rightarrow>
          (updateIngestionStatus b (set_status b triggered (s\<lparr>processingQueue := q\<rparr>)),
           Some (AwaitFetch b)))"

text \<open>A call of \<^verbatim>\<open>processBatches()\<close>, up to its first suspension or its return.\<close>

definition processBatches :: "state \<Rightarrow> state" where
  "processBatches s =
     (case loop_head (s\<lparr>isProcessing := True\<rparr>) of
        (s', None) \<Rightarrow> s'
      | (s', Some a) \<Rightarrow> s'\<lparr>activations := activations s' @ [a]\<rparr>)"

text \<open>The activation at index \<open>i\<close> resumes after its fetches have all settled.\<close>

definition after_fetch :: "nat \<Rightarrow> state \<Rightarrow> state" where
  "after_fetch i s =
     (if i < length (activations s)
      then (case activations s ! i of
              AwaitFetch b \<Rightarrow>
                (updateIngestionStatus b (set_status b completed s))
                  \<lparr>activations := (activations s)[i := AwaitCooldown]\<rparr>
            | AwaitCooldown \<Rightarrow> s)
      else s)"

text \<open>The activation at index \<open>i\<close> resumes after its timer of 5000 ms.\<close>

definition after_cooldown :: "nat \<Rightarrow> state \<Rightarrow> state" where
  "after_cooldown i s =
     (if i < length (activations s)
      then (case activations s ! i of
              AwaitCooldown \<Rightarrow>
                (case loop_head s of
                   (s', None) \<Rightarrow>
                     s'\<lparr>activations := take i (activations s') @ drop (Suc i) (activations s')\<rparr>
                 | (s', Some a) \<Rightarrow> s'\<lparr>activations := (activations s')[i := a]\<rparr>)
            | AwaitFetch b \<Rightarrow> s)
      else s)"

section \<open>POST /ingest\<close>

text \<open>
  \<^verbatim>\<open>uuidv4()\<close> and \<^verbatim>\<open>Date.now()\<close> are inputs from outside: \<open>U k\<close> is what the \<open>k\<close>-th call of
  \<^verbatim>\<open>uuidv4\<close> returns and \<open>T k\<close> what the \<open>k\<close>-th call of \<^verbatim>\<open>Date.now\<close> returns, and the state
  counts the calls made so far. \<open>loop_body\<close> is one round of the \<^verbatim>\<open>for\<close> loop, on the local
  array \<^verbatim>\<open>batches\<close> and the state; \<open>make_batches\<close> is the loop from index \<open>i\<close> on.
\<close>

definition loop_body ::
  "(nat \<Rightarrow> uuid) \<Rightarrow> (nat \<Rightarrow> int) \<Rightarrow> json list \<Rightarrow> json \<Rightarrow> nat \<Rightarrow> addr list \<times> state \<Rightarrow> addr list \<times> state" where
  "loop_body U T xs p i acc =
     (case acc of (bs, s) \<Rightarrow>
        (let batchIds = slice i (i + 3) xs;
             batchId = U (uuid_calls s);
             b = \<lparr>batch_id = batchId, ids = batchIds, status = yet_to_start, priority = p,
                  created_time = T (clock_calls s)\<rparr>;
             a = length (heap s)
         in (bs @ [a],
             s\<lparr>heap := heap s @ [b],
               processingQueue := processingQueue s @ [a],
               uuid_calls := Suc (uuid_calls s),
               clock_calls := Suc (clock_calls s)\<rparr>)))"

function make_batches ::
  "(nat \<Rightarrow> uuid) \<Rightarrow> (nat \<Rightarrow> int) \<Rightarrow> json list \<Rightarrow> json \<Rightarrow> nat \<Rightarrow> addr list \<times> state \<Rightarrow> addr list \<times> state" where
  "make_batches U T xs p i acc =
     (if i < length xs then make_batches U T xs p (i + 3) (loop_body U T xs p i acc) else acc)"
  by pat_completeness auto
termination
  by (relation "measure (\<lambda>(U, T, xs, p, i, acc). length xs - i)") auto

declare make_batches.simps [simp del]

text \<open>\<^verbatim>\<open>ingestionStore.set(k, v)\<close>: a present key keeps its place, a new key goes last.\<close>

fun store_set :: "uuid \<Rightarrow> ingestion \<Rightarrow> (uuid \<times> ingestion) list \<Rightarrow> (uuid \<times> ingestion) list" where
  "store_set k v [] = [(k, v)]"
| "store_set k v ((k', v') # es) = (if k' = k then (k, v) # es else (k', v') # store_set k v es)"

text \<open>
  The handler. Its response is the new ingestion id (status 200), \<open>InvalidInput\<close> (status
  400), or the \<open>TypeError\<close> the comparator threw: the handler stops in the sort, with its
  batches pushed and nothing stored, and Express answers with status 500.
\<close>

definition ingest :: "(nat \<Rightarrow> uuid) \<Rightarrow> (nat \<Rightarrow> int) \<Rightarrow> request \<Rightarrow> state \<Rightarrow> (error + uuid) \<times> state" where
  "ingest U T req s =
     (let ids = body_ids req;
          priority = (case body_priority req of None \<Rightarrow> JStr ''MEDIUM'' | Some p \<Rightarrow> p)
      in if \<not> truthy ids \<or> \<not> isArray ids then (Inl InvalidInput, s)
         else (case ids of
                 Some (JArr xs) \<Rightarrow>
                   (let ingestionId = U (uuid_calls s);
                        s1 = s\<lparr>uuid_calls := Suc (uuid_calls s)\<rparr>;
                        (bs, s2) = make_batches U T xs priority 0 ([], s1)
                    in (case sort_queue (heap s2) (processingQueue s2) of
                          Inl e \<Rightarrow> (Inl e, s2)
                        | Inr q \<Rightarrow>
                            (let s3 = s2\<lparr>processingQueue := q\<rparr>;
                                 s4 = s3\<lparr>ingestionStore :=
                                          store_set ingestionId
                                            \<lparr>ingestion_id = ingestionId,
                                             ingestion_status = yet_to_start,
                                             batches = bs\<rparr>
                                            (ingestionStore s3)\<rparr>;
                                 s5 = (if \<not> isProcessing s4 then processBatches s4 else s4)
                             in (Inr ingestionId, s5))))
               | _ \<Rightarrow> (Inl InvalidInput, s)))"

section \<open>GET /status/:ingestionId\<close>

text \<open>The response renders the ingestion with its batch objects as they are at that moment.\<close>

record ingestion_view =
  view_id :: uuid
  view_status :: status
  view_batches :: "batch list"

definition get_status :: "uuid \<Rightarrow> state \<Rightarrow> error + ingestion_view" where
  "get_status k s =
     (case map_of (ingestionStore s) k of
        None \<Rightarrow> Inl NotFound
      | Some d \<Rightarrow>
          Inr \<lparr>view_id = ingestion_id d, view_status = ingestion_status d,
               view_batches = map (\<lambda>b. heap s ! b) (batches d)\<rparr>)"

section \<open>Runs of the process\<close>

text \<open>
  Between two suspensions the process runs one piece of code to its end: a request handler, or
  the continuation of an activation whose fetches have settled or whose timer has elapsed.
  \<^verbatim>\<open>fetchDataFromExternalAPI\<close> waits 1000 ms and resolves, so the fetches of a batch always
  settle and change nothing. A run is a list of such events, applied from the initial state;
  a status request changes nothing and is not an event.
\<close>

datatype event = Ingest request | FetchesSettled nat | CooldownElapsed nat

fun step :: "(nat \<Rightarrow> uuid) \<Rightarrow> (nat \<Rightarrow> int) \<Rightarrow> state \<Rightarrow> event \<Rightarrow> state" where
  "step U T s (Ingest req) = snd (ingest U T req s)"
| "step U T s (FetchesSettled i) = after_fetch i s"
| "step U T s (CooldownElapsed i) = after_cooldown i s"

definition run :: "(nat \<Rightarrow> uuid) \<Rightarrow> (nat \<Rightarrow> int) \<Rightarrow> event list \<Rightarrow> state" where
  "run U T es = foldl (step U T) init es"

section \<open>Notions used in the statements\<close>

text \<open>
  The loop of the handler in closed form: from index \<open>i\<close> it runs \<open>chunks_from n i\<close> rounds on
  a list of length \<open>n\<close>, and its \<open>k\<close>-th round creates the batch \<open>created U T xs p i s k\<close>.
\<close>

definition chunks_from :: "nat \<Rightarrow> nat \<Rightarrow> nat" where
  "chunks_from n i = (n - i + 2) div 3"

definition created :: "(nat \<Rightarrow> uuid) \<Rightarrow> (nat \<Rightarrow> int) \<Rightarrow> json list \<Rightarrow> json \<Rightarrow> nat \<Rightarrow> state \<Rightarrow> nat \<Rightarrow> batch" where
  "created U T xs p i s k =
     \<lparr>batch_id = U (uuid_calls s + k), ids = slice (i + 3 * k) (i + 3 * k + 3) xs,
      status = yet_to_start, priority = p, created_time = T (clock_calls s + k)\<rparr>"

text \<open>
  The scheduling order of the specification. The rank of a priority is the number the table
  gives it, if it gives one; \<open>before a b\<close> says that both batches have a rank and that \<open>a\<close> is
  not after \<open>b\<close> by rank first and creation time second; a queue is in order when every batch
  in it is before all the batches behind it.
\<close>

definition rank :: "json \<Rightarrow> int option" where
  "rank p = (case PRIORITY_VALUES_at p of Inr (Num r) \<Rightarrow> Some r | _ \<Rightarrow> None)"

definition before :: "batch \<Rightarrow> batch \<Rightarrow> bool" where
  "before a b =
     (case rank (priority a) of
        None \<Rightarrow> False
      | Some ra \<Rightarrow>
          (case rank (priority b) of
             None \<Rightarrow> False
           | Some rb \<Rightarrow> ra < rb \<or> (ra = rb \<and> created_time a \<le> created_time b)))"

definition ranked :: "batch \<Rightarrow> bool" where
  "ranked b = (rank (priority b) \<noteq> None)"

definition in_order :: "batch list \<Rightarrow> addr list \<Rightarrow> bool" where
  "in_order h q = sorted_wrt (\<lambda>a b. before (h ! a) (h ! b)) q"

text \<open>
  The priority a request ends up with, and the state of the handler after it has sorted the
  queue to \<open>q\<close> and stored the new ingestion with the batches \<open>bs\<close>.
\<close>

definition priority_of :: "request \<Rightarrow> json" where
  "priority_of req = (case body_priority req of None \<Rightarrow> JStr ''MEDIUM'' | Some p \<Rightarrow> p)"

definition recorded :: "(nat \<Rightarrow> uuid) \<Rightarrow> state \<Rightarrow> addr list \<Rightarrow> addr list \<Rightarrow> state \<Rightarrow> state" where
  "recorded U s bs q s2 =
     s2\<lparr>processingQueue := q,
        ingestionStore :=
          store_set (U (uuid_calls s))
            \<lparr>ingestion_id = U (uuid_calls s), ingestion_status = yet_to_start, batches = bs\<rparr>
            (ingestionStore s2)\<rparr>"

text \<open>
  The invariant of the scheduler: the queue holds distinct batches that have not started; and
  either no activation exists, the flag is clear and no batch is triggered, or one activation
  exists, the flag is set, and the only triggered batch is the one whose fetches it awaits.
\<close>

definition sched_inv :: "state \<Rightarrow> bool" where
  "sched_inv s \<longleftrightarrow>
     distinct (processingQueue s) \<and>
     (\<forall>a \<in> set (processingQueue s). a < length (heap s) \<and> status (heap s ! a) = yet_to_start) \<and>
     ((activations s = [] \<and> \<not> isProcessing s \<and>
         (\<forall>a < length (heap s). status (heap s ! a) \<noteq> triggered)) \<or>
      (activations s = [AwaitCooldown] \<and> isProcessing s \<and>
         (\<forall>a < length (heap s). status (heap s ! a) \<noteq> triggered)) \<or>
      (\<exists>b. activations s = [AwaitFetch b] \<and> isProcessing s \<and> b < length (heap s) \<and>
         (\<forall>a < length (heap s). status (heap s ! a) = triggered \<longleftrightarrow> a = b)))"

text \<open>One status may follow another in a step: it stays, or moves to the next one.\<close>

definition advances :: "status \<Rightarrow> status \<Rightarrow> bool" where
  "advances x y \<longleftrightarrow>
     y = x \<or> (x = yet_to_start \<and> y = triggered) \<or> (x = triggered \<and> y = completed)"

text \<open>
  The invariant of the store, for a generator of ids that never repeats. Every batch id and
  every key of the store is an id drawn so far, and no two batches and no two keys share one.
  Every address in an ingestion is of a batch in the heap, and no address stands twice in the
  store. Every ingestion is stored under its id, and its status is the one expected of its
  batches: \<open>yet_to_start\<close> for an ingestion without batches, which is never reconciled, and
  what lines 129 to 138 compute otherwise.
\<close>

definition ids_inv :: "(nat \<Rightarrow> uuid) \<Rightarrow> state \<Rightarrow> bool" where
  "ids_inv U s \<longleftrightarrow>
     (\<forall>i \<in> set (map batch_id (heap s)). \<exists>n < uuid_calls s. i = U n) \<and>
     distinct (map batch_id (heap s)) \<and>
     (\<forall>k \<in> set (map fst (ingestionStore s)). \<exists>n < uuid_calls s. k = U n) \<and>
     distinct (map fst (ingestionStore s))"

definition owned :: "batch list \<Rightarrow> (uuid \<times> ingestion) list \<Rightarrow> bool" where
  "owned h es \<longleftrightarrow>
     (\<forall>e \<in> set es. \<forall>a \<in> set (batches (snd e)). a < length h) \<and>
     distinct (concat (map (\<lambda>e. batches (snd e)) es))"

definition expected_status :: "batch list \<Rightarrow> addr list \<Rightarrow> status" where
  "expected_status h bs = (if bs = [] then yet_to_start else overall_status h bs)"

definition statuses :: "batch list \<Rightarrow> (uuid \<times> ingestion) list \<Rightarrow> bool" where
  "statuses h es \<longleftrightarrow>
     (\<forall>e \<in> set es. ingestion_id (snd e) = fst e \<and>
        ingestion_status (snd e) = expected_status h (batches (snd e)))"

definition store_inv :: "(nat \<Rightarrow> uuid) \<Rightarrow> state \<Rightarrow> bool" where
  "store_inv U s \<longleftrightarrow>
     ids_inv U s \<and> owned (heap s) (ingestionStore s) \<and> statuses (heap s) (ingestionStore s)"

text \<open>What a reconciliation of the batch \<open>u\<close> does to one entry of the store.\<close>

definition recompute :: "batch list \<Rightarrow> addr \<Rightarrow> uuid \<times> ingestion \<Rightarrow> uuid \<times> ingestion" where
  "recompute h u e =
     (if u \<in> set (batches (snd e))
      then (fst e, (snd e)\<lparr>ingestion_status := overall_status h (batches (snd e))\<rparr>)
      else e)"

text \<open>
  The invariant of the runs in which every batch created has a rank: the queue is in order.
\<close>

definition ranked_inv :: "state \<Rightarrow> bool" where
  "ranked_inv s \<longleftrightarrow>
     (\<forall>a < length (heap s). ranked (heap s ! a)) \<and> in_order (heap s) (processingQueue s)"

text \<open>A generator of ids that never repeats, a clock that advances by one millisecond at
  every reading, and requests with a string as priority, for the examples.\<close>

definition U0 :: "nat \<Rightarrow> uuid" where
  "U0 n = replicate (Suc n) CHR ''u''"

definition T0 :: "nat \<Rightarrow> int" where
  "T0 n = 1000 + int n"

definition post :: "json list \<Rightarrow> string \<Rightarrow> request" where
  "post xs p = \<lparr>body_ids = Some (JArr xs), body_priority = Some (JStr p)\<rparr>"

definition seven :: "json list" where
  "seven = map JNum [1, 2, 3, 4, 5, 6, 7]"

definition seven_split :: "addr list \<times> state" where
  "seven_split = make_batches U0 T0 seven (JStr ''MEDIUM'') 0 ([], init)"


text \<open>A request for four identifiers, which makes two batches.\<close>

definition two_batches :: "event list" where
  "two_batches = [Ingest (post (map JNum [1, 2, 3, 4]) ''MEDIUM'')]"

text \<open>A request for one identifier, which makes one batch.\<close>

definition one_batch :: "event list" where
  "one_batch = [Ingest (post [JNum 1] ''MEDIUM'')]"

text \<open>A request with an empty list of identifiers, sent first, before a request for one.\<close>

definition empty_post :: request where
  "empty_post = \<lparr>body_ids = Some (JArr []), body_priority = None\<rparr>"

definition empty_then_one :: "event list" where
  "empty_then_one = [Ingest empty_post, Ingest (post [JNum 1] ''MEDIUM'')]"

text \<open>
  A priority that has no property key, and a run that leaves two batches with it in the queue:
  the first request puts a batch in flight, the second pushes two batches and fails when the
  comparator first reads the table.
\<close>

definition no_key :: json where
  "no_key = JObj [(''toString'', JNum 1)]"

definition poisoned :: "event list" where
  "poisoned =
     [Ingest (post [JNum 1] ''MEDIUM''),
      Ingest \<lparr>body_ids = Some (JArr (map JNum [1, 2, 3, 4])), body_priority = Some no_key\<rparr>]"

text \<open>A request without \<^verbatim>\<open>ids\<close>, and one whose \<^verbatim>\<open>ids\<close> is an object.\<close>

definition no_ids :: request where
  "no_ids = \<lparr>body_ids = None, body_priority = Some (JStr ''HIGH'')\<rparr>"

definition object_ids :: request where
  "object_ids = \<lparr>body_ids = Some (JObj []), body_priority = None\<rparr>"

text \<open>Requests for four identifiers with a priority the table does not know, and with one
  that has no property key.\<close>

definition urgent_post :: request where
  "urgent_post = post (map JNum [1, 2, 3, 4]) ''URGENT''"

definition no_key_post :: request where
  "no_key_post = \<lparr>body_ids = Some (JArr (map JNum [1, 2, 3, 4])), body_priority = Some no_key\<rparr>"

text \<open>
  The test of the specification: with a batch in flight, a request of priority \<^verbatim>\<open>LOW\<close> and then
  one of priority \<^verbatim>\<open>HIGH\<close>, up to the completion of the batch in flight. And the same with a
  request of the unknown priority \<^verbatim>\<open>URGENT\<close> between the two, up to the next dequeue.
\<close>

definition low_then_high :: "event list" where
  "low_then_high =
     [Ingest (post [JNum 1] ''MEDIUM''), Ingest (post [JNum 2] ''LOW''),
      Ingest (post [JNum 3] ''HIGH''), FetchesSettled 0]"

definition stuck_high :: "event list" where
  "stuck_high =
     [Ingest (post [JNum 1] ''MEDIUM''), Ingest (post [JNum 2] ''LOW''),
      Ingest (post [JNum 3] ''URGENT''), Ingest (post [JNum 4] ''HIGH''),
      FetchesSettled 0, CooldownElapsed 0]"

section \<open>The loop that creates the batches\<close>

lemma chunks_from_step: "i < n \<Longrightarrow> chunks_from n i = Suc (chunks_from n (i + 3))"
proof -
  assume "i < n"
  then obtain m where n: "n = i + Suc m" by (auto dest: less_imp_Suc_add)
  have "(Suc m + 2) div 3 = Suc ((Suc m - 3 + 2) div 3)"
  proof (cases "m < 2")
    case True
    then have "m = 0 \<or> m = 1" by auto
    then show ?thesis by auto
  next
    case False
    then obtain k where "m = k + 2" by (metis add.commute le_Suc_ex not_less)
    then show ?thesis by simp
  qed
  then show ?thesis by (simp add: chunks_from_def n)
qed

lemma chunks_from_done: "\<not> i < n \<Longrightarrow> chunks_from n i = 0"
  by (simp add: chunks_from_def)

lemma upt_shift: "[a..<Suc (a + n)] = a # [Suc a..<Suc (a + n)]"
  by (simp add: upt_conv_Cons)

lemma loop_body_eq:
  "loop_body U T xs p i (bs, s) =
     (bs @ [length (heap s)],
      s\<lparr>heap := heap s @ [created U T xs p i s 0],
        processingQueue := processingQueue s @ [length (heap s)],
        uuid_calls := Suc (uuid_calls s),
        clock_calls := Suc (clock_calls s)\<rparr>)"
  by (simp add: loop_body_def created_def Let_def)

lemma created_shift:
  "created U T xs p (i + 3)
     (s\<lparr>heap := h, processingQueue := q, uuid_calls := Suc (uuid_calls s),
        clock_calls := Suc (clock_calls s)\<rparr>) = (\<lambda>k. created U T xs p i s (Suc k))"
  by (rule ext) (simp add: created_def add.assoc)

lemma make_batches_closed:
  "make_batches U T xs p i (bs, s) =
     (bs @ [length (heap s)..<length (heap s) + chunks_from (length xs) i],
      s\<lparr>heap := heap s @ map (created U T xs p i s) [0..<chunks_from (length xs) i],
        processingQueue := processingQueue s @ [length (heap s)..<length (heap s) + chunks_from (length xs) i],
        uuid_calls := uuid_calls s + chunks_from (length xs) i,
        clock_calls := clock_calls s + chunks_from (length xs) i\<rparr>)"
proof (induction U T xs p i "(bs, s)" arbitrary: bs s rule: make_batches.induct)
  case (1 U T xs p i bs s)
  show ?case
  proof (cases "i < length xs")
    case False
    then show ?thesis
      by (simp add: make_batches.simps[of U T xs p i] chunks_from_done)
  next
    case True
    let ?n = "chunks_from (length xs) (i + 3)"
    have n: "chunks_from (length xs) i = Suc ?n" using True by (rule chunks_from_step)
    have step: "make_batches U T xs p i (bs, s) = make_batches U T xs p (i + 3) (loop_body U T xs p i (bs, s))"
      by (subst make_batches.simps) (simp add: True)
    show ?thesis
      unfolding step n loop_body_eq
      by (simp add: 1[OF True loop_body_eq] created_shift map_upt_Suc upt_shift del: upt_Suc)
  qed
qed

lemma make_batches_result:
  assumes "make_batches U T xs p 0 ([], s) = (bs, s')"
  shows "bs = [length (heap s)..<length (heap s) + chunks_from (length xs) 0]"
    and "heap s' = heap s @ map (created U T xs p 0 s) [0..<chunks_from (length xs) 0]"
    and "processingQueue s' = processingQueue s @ bs"
    and "uuid_calls s' = uuid_calls s + length bs"
    and "clock_calls s' = clock_calls s + length bs"
    and "ingestionStore s' = ingestionStore s"
    and "isProcessing s' = isProcessing s"
    and "activations s' = activations s"
  using assms unfolding make_batches_closed by auto

lemma make_batches_nth:
  assumes "make_batches U T xs p 0 ([], s) = (bs, s')" and "k < length bs"
  shows "heap s' ! (bs ! k) = created U T xs p 0 s k"
  using assms unfolding make_batches_closed by (auto simp: nth_append)

lemma concat_slices: "concat (map (\<lambda>k. slice (3 * k) (3 * k + 3) xs) [0..<n]) = take (3 * n) xs"
proof (induction n)
  case 0
  show ?case by simp
next
  case (Suc n)
  have "take (3 * n + 3) xs = take (3 * n) xs @ take 3 (drop (3 * n) xs)"
    by (rule take_add)
  moreover have "3 * Suc n = 3 * n + 3" by simp
  ultimately show ?case using Suc by (simp add: slice_def del: mult_Suc_right)
qed

text \<open>
  Claim C3. For an identifier list of length \<open>N\<close> the loop creates \<open>\<lceil>N / 3\<rceil>\<close> batches, which is
  \<open>(N + 2) div 3\<close>; the \<open>k\<close>-th batch holds the identifiers at the indices \<open>3 k\<close> to \<open>3 k + 2\<close>
  that exist, at least one and at most three; and the id lists of the batches, concatenated
  in creation order, are the input list.
\<close>

theorem split_into_batches:
  assumes "make_batches U T xs p 0 ([], s) = (bs, s')"
  shows "length bs = (length xs + 2) div 3 \<and>
         (\<forall>k < length bs.
            ids (heap s' ! (bs ! k)) = slice (3 * k) (3 * k + 3) xs \<and>
            1 \<le> length (ids (heap s' ! (bs ! k))) \<and>
            length (ids (heap s' ! (bs ! k))) \<le> 3) \<and>
         concat (map (\<lambda>a. ids (heap s' ! a)) bs) = xs"
proof -
  let ?n = "(length xs + 2) div 3"
  have len: "length bs = ?n"
    using make_batches_result(1)[OF assms] by (simp add: chunks_from_def)
  have each: "ids (heap s' ! (bs ! k)) = slice (3 * k) (3 * k + 3) xs" if "k < length bs" for k
    using make_batches_nth[OF assms that] by (simp add: created_def)
  have bound: "3 * k < length xs" if "k < length bs" for k
    using that len by simp
  have "map (\<lambda>a. ids (heap s' ! a)) bs = map (\<lambda>k. slice (3 * k) (3 * k + 3) xs) [0..<length bs]"
    by (rule nth_equalityI) (simp_all add: each)
  then have "concat (map (\<lambda>a. ids (heap s' ! a)) bs) = take (3 * ?n) xs"
    by (simp add: concat_slices len)
  moreover have "length xs \<le> 3 * ?n" by simp
  ultimately have whole: "concat (map (\<lambda>a. ids (heap s' ! a)) bs) = xs" by simp
  show ?thesis
    using len each bound whole by (auto simp: slice_def)
qed

lemma seven_split_eval:
  "fst seven_split = [0, 1, 2]"
  "map ids (heap (snd seven_split)) = [[JNum 1, JNum 2, JNum 3], [JNum 4, JNum 5, JNum 6], [JNum 7]]"
  by (simp_all add: seven_split_def make_batches_closed chunks_from_def seven_def init_def
        created_def slice_def upt_conv_Cons)

theorem split_into_batches_witness:
  "fst seven_split = [0, 1, 2] \<and>
   map ids (heap (snd seven_split)) = [[JNum 1, JNum 2, JNum 3], [JNum 4, JNum 5, JNum 6], [JNum 7]] \<and>
   length (fst seven_split) = (length seven + 2) div 3 \<and>
   concat (map (\<lambda>a. ids (heap (snd seven_split) ! a)) (fst seven_split)) = seven"
proof -
  have eq: "make_batches U0 T0 seven (JStr ''MEDIUM'') 0 ([], init) = (fst seven_split, snd seven_split)"
    by (simp add: seven_split_def)
  show ?thesis
    using split_into_batches[OF eq] by (simp add: seven_split_eval)
qed


section \<open>Sorting the queue\<close>

lemma rank_Some: "rank p = Some r \<longleftrightarrow> PRIORITY_VALUES_at p = Inr (Num r)"
  by (simp add: rank_def split: sum.splits looked_up.splits)

lemma comparator_ranked:
  assumes "rank (priority a) = Some ra" and "rank (priority b) = Some rb"
  shows "comparator a b = Inr (Finite (if ra \<noteq> rb then ra - rb else created_time a - created_time b))"
  using assms unfolding rank_Some by (simp add: comparator_def)

lemma comparator_before:
  assumes "ranked a" and "ranked b"
  shows "\<exists>v. comparator a b = Inr v \<and> (positive v \<longleftrightarrow> \<not> before a b)"
proof -
  from assms obtain ra rb where r: "rank (priority a) = Some ra" "rank (priority b) = Some rb"
    by (auto simp: ranked_def)
  show ?thesis
    unfolding comparator_ranked[OF r] using r by (auto simp: before_def)
qed

lemma before_total: "ranked a \<Longrightarrow> ranked b \<Longrightarrow> before a b \<or> before b a"
  by (auto simp: before_def ranked_def)

lemma before_trans: "before a b \<Longrightarrow> before b c \<Longrightarrow> before a c"
  by (auto simp: before_def split: option.splits)

lemma before_refl: "ranked a \<Longrightarrow> before a a"
  by (auto simp: before_def ranked_def)

lemma insert_by_set:
  "insert_by cmp x ys = Inr zs \<Longrightarrow> set zs = insert x (set ys) \<and> length zs = Suc (length ys)"
proof (induction ys arbitrary: zs)
  case Nil
  then show ?case by auto
next
  case (Cons y ys)
  from Cons.prems obtain v where v: "cmp x y = Inr v" by (auto split: sum.splits)
  show ?case
  proof (cases "positive v")
    case True
    with Cons.prems v obtain ws where ws: "insert_by cmp x ys = Inr ws" "zs = y # ws"
      by (auto split: sum.splits)
    from Cons.IH[OF ws(1)] ws(2) show ?thesis by auto
  next
    case False
    with Cons.prems v show ?thesis by auto
  qed
qed


lemma insert_by_distinct:
  assumes "insert_by cmp x ys = Inr zs" and "distinct ys" and "x \<notin> set ys"
  shows "distinct zs"
  using assms
proof (induction ys arbitrary: zs)
  case Nil
  then show ?case by auto
next
  case (Cons y ys)
  from Cons.prems obtain v where v: "cmp x y = Inr v" by (auto split: sum.splits)
  show ?case
  proof (cases "positive v")
    case True
    with Cons.prems v obtain ws where ws: "insert_by cmp x ys = Inr ws" "zs = y # ws"
      by (auto split: sum.splits)
    have "distinct ws" using Cons.IH[OF ws(1)] Cons.prems by simp
    moreover have "y \<notin> set ws" using insert_by_set[OF ws(1)] Cons.prems by auto
    ultimately show ?thesis using ws(2) by simp
  next
    case False
    with Cons.prems v show ?thesis by auto
  qed
qed

lemma sort_by_set:
  "sort_by cmp xs = Inr zs \<Longrightarrow> set zs = set xs \<and> length zs = length xs"
proof (induction xs arbitrary: zs)
  case Nil
  then show ?case by simp
next
  case (Cons x xs)
  from Cons.prems obtain ys where ys: "sort_by cmp xs = Inr ys" "insert_by cmp x ys = Inr zs"
    by (auto split: sum.splits)
  from Cons.IH[OF ys(1)] insert_by_set[OF ys(2)] show ?case by simp
qed

lemma sort_by_distinct:
  "sort_by cmp xs = Inr zs \<Longrightarrow> distinct xs \<Longrightarrow> distinct zs"
proof (induction xs arbitrary: zs)
  case Nil
  then show ?case by simp
next
  case (Cons x xs)
  from Cons.prems obtain ys where ys: "sort_by cmp xs = Inr ys" "insert_by cmp x ys = Inr zs"
    by (auto split: sum.splits)
  have "distinct ys" using Cons.IH[OF ys(1)] Cons.prems(2) by simp
  moreover have "x \<notin> set ys" using sort_by_set[OF ys(1)] Cons.prems(2) by simp
  ultimately show ?case using insert_by_distinct[OF ys(2)] by simp
qed

lemma in_order_Cons:
  "in_order h (y # ys) \<longleftrightarrow> (\<forall>a \<in> set ys. before (h ! y) (h ! a)) \<and> in_order h ys"
  by (simp add: in_order_def)

lemma insert_by_ranked:
  assumes "\<forall>a \<in> set (x # ys). ranked (h ! a)" and "in_order h ys"
  shows "\<exists>zs. insert_by (\<lambda>a b. comparator (h ! a) (h ! b)) x ys = Inr zs \<and> in_order h zs"
  using assms
proof (induction ys)
  case Nil
  then show ?case by (simp add: in_order_def)
next
  case (Cons y ys)
  from Cons.prems(1) have rx: "ranked (h ! x)" and ry: "ranked (h ! y)" by simp_all
  from comparator_before[OF rx ry] obtain v where
    v: "comparator (h ! x) (h ! y) = Inr v" and pv: "positive v \<longleftrightarrow> \<not> before (h ! x) (h ! y)"
    by blast
  from Cons.prems(2) have tail: "\<forall>a \<in> set ys. before (h ! y) (h ! a)" and ys: "in_order h ys"
    by (simp_all add: in_order_Cons)
  show ?case
  proof (cases "positive v")
    case False
    then have xy: "before (h ! x) (h ! y)" using pv by simp
    have "\<forall>a \<in> set ys. before (h ! x) (h ! a)"
      using tail xy before_trans by blast
    then have "in_order h (x # y # ys)"
      using xy Cons.prems(2) by (simp add: in_order_Cons)
    moreover have "insert_by (\<lambda>a b. comparator (h ! a) (h ! b)) x (y # ys) = Inr (x # y # ys)"
      using v False by simp
    ultimately show ?thesis by blast
  next
    case True
    then have yx: "before (h ! y) (h ! x)" using pv before_total[OF rx ry] by blast
    have "\<forall>a \<in> set (x # ys). ranked (h ! a)" using Cons.prems(1) by simp
    from Cons.IH[OF this ys] obtain zs where
      zs: "insert_by (\<lambda>a b. comparator (h ! a) (h ! b)) x ys = Inr zs" and o: "in_order h zs"
      by blast
    have "set zs = insert x (set ys)" using insert_by_set[OF zs] by simp
    then have "\<forall>a \<in> set zs. before (h ! y) (h ! a)"
      using yx tail by simp
    then have "in_order h (y # zs)" using o by (simp add: in_order_Cons)
    moreover have "insert_by (\<lambda>a b. comparator (h ! a) (h ! b)) x (y # ys) = Inr (y # zs)"
      using v True zs by simp
    ultimately show ?thesis by blast
  qed
qed

lemma sort_queue_ranked:
  assumes "\<forall>a \<in> set q. ranked (h ! a)"
  shows "\<exists>q'. sort_queue h q = Inr q' \<and> in_order h q'"
  using assms
proof (induction q)
  case Nil
  then show ?case by (simp add: sort_queue_def in_order_def)
next
  case (Cons x q)
  from Cons.prems have "\<forall>a \<in> set q. ranked (h ! a)" by simp
  from Cons.IH[OF this] obtain q' where
    q': "sort_queue h q = Inr q'" and o: "in_order h q'" by blast
  have "set q' = set q" using sort_by_set[of _ q q'] q' by (simp add: sort_queue_def)
  then have "\<forall>a \<in> set (x # q'). ranked (h ! a)" using Cons.prems by simp
  from insert_by_ranked[OF this o] obtain zs where
    zs: "insert_by (\<lambda>a b. comparator (h ! a) (h ! b)) x q' = Inr zs" and oz: "in_order h zs" by blast
  have "sort_queue h (x # q) = Inr zs"
    using q' zs by (simp add: sort_queue_def)
  then show ?case using oz by blast
qed

section \<open>When sorting the queue throws\<close>

lemma ToString_error:
  "ToString p = Inl e \<Longrightarrow> e = TypeError"
  "ToStrings ps = Inl e \<Longrightarrow> e = TypeError"
  by (induction p and ps rule: ToString_ToStrings.induct)
     (auto split: sum.splits if_splits)

lemma comparator_error: "comparator a b = Inl e \<Longrightarrow> e = TypeError"
  by (auto simp: comparator_def PRIORITY_VALUES_at_def split: sum.splits dest: ToString_error(1))

lemma insert_by_error:
  assumes c: "\<forall>a b e. cmp a b = Inl e \<longrightarrow> e = TypeError"
    and i: "insert_by cmp x ys = Inl e"
  shows "e = TypeError"
  using i
proof (induction ys)
  case Nil
  then show ?case by simp
next
  case (Cons y ys)
  show ?case
  proof (cases "cmp x y")
    case (Inl e')
    with Cons.prems c show ?thesis by simp
  next
    case (Inr v)
    with Cons show ?thesis by (auto split: if_splits sum.splits)
  qed
qed

lemma sort_by_error:
  assumes c: "\<forall>a b e. cmp a b = Inl e \<longrightarrow> e = TypeError"
    and i: "sort_by cmp xs = Inl e"
  shows "e = TypeError"
  using i
proof (induction xs)
  case Nil
  then show ?case by simp
next
  case (Cons x xs)
  show ?case
  proof (cases "sort_by cmp xs")
    case (Inl e')
    with Cons show ?thesis by simp
  next
    case (Inr ys)
    with Cons.prems have "insert_by cmp x ys = Inl e" by simp
    with c show ?thesis by (rule insert_by_error)
  qed
qed

lemma sort_queue_error:
  assumes "sort_queue h q = Inl e"
  shows "e = TypeError"
proof -
  have "\<forall>a b e. comparator (h ! a) (h ! b) = Inl e \<longrightarrow> e = TypeError"
    using comparator_error by blast
  then show ?thesis using assms unfolding sort_queue_def by (rule sort_by_error)
qed


lemma comparator_throws:
  assumes "comparator a b = Inl e"
  shows "ToString (priority a) = Inl TypeError \<or> ToString (priority b) = Inl TypeError"
proof -
  have "ToString (priority a) = Inl e \<or> ToString (priority b) = Inl e"
    using assms by (auto simp: comparator_def PRIORITY_VALUES_at_def split: sum.splits)
  then show ?thesis using ToString_error(1) by blast
qed

lemma insert_by_throws:
  "insert_by cmp x ys = Inl e \<Longrightarrow> \<exists>y \<in> set ys. cmp x y = Inl e"
proof (induction ys)
  case Nil
  then show ?case by simp
next
  case (Cons y ys)
  show ?case
  proof (cases "cmp x y")
    case (Inl e')
    with Cons.prems show ?thesis by simp
  next
    case (Inr v)
    with Cons show ?thesis by (auto split: if_splits sum.splits)
  qed
qed

lemma sort_by_throws:
  "sort_by cmp xs = Inl e \<Longrightarrow> \<exists>x \<in> set xs. \<exists>y \<in> set xs. cmp x y = Inl e"
proof (induction xs)
  case Nil
  then show ?case by simp
next
  case (Cons x xs)
  show ?case
  proof (cases "sort_by cmp xs")
    case (Inl e')
    with Cons show ?thesis by auto
  next
    case (Inr ys)
    with Cons.prems have "insert_by cmp x ys = Inl e" by simp
    from insert_by_throws[OF this] obtain y where "y \<in> set ys" "cmp x y = Inl e" by blast
    moreover have "set ys = set xs" using sort_by_set[OF Inr] by simp
    ultimately show ?thesis by auto
  qed
qed

lemma sort_queue_throws:
  assumes "sort_queue h q = Inl e"
  shows "\<exists>a \<in> set q. ToString (priority (h ! a)) = Inl TypeError"
proof -
  from assms have "sort_by (\<lambda>a b. comparator (h ! a) (h ! b)) q = Inl e"
    by (simp add: sort_queue_def)
  from sort_by_throws[OF this]
  obtain a b where "a \<in> set q" "b \<in> set q" "comparator (h ! a) (h ! b) = Inl e"
    by blast
  then show ?thesis using comparator_throws by blast
qed

section \<open>The scheduler's invariant\<close>

lemma updateIngestionStatus_fields [simp]:
  "heap (updateIngestionStatus b s) = heap s"
  "processingQueue (updateIngestionStatus b s) = processingQueue s"
  "isProcessing (updateIngestionStatus b s) = isProcessing s"
  "activations (updateIngestionStatus b s) = activations s"
  "uuid_calls (updateIngestionStatus b s) = uuid_calls s"
  "clock_calls (updateIngestionStatus b s) = clock_calls s"
  "ingestionStore (updateIngestionStatus b s) = update_entries (heap s) b (ingestionStore s)"
  by (simp_all add: updateIngestionStatus_def)

lemma set_status_fields [simp]:
  "heap (set_status b v s) = (heap s)[b := (heap s ! b)\<lparr>status := v\<rparr>]"
  "processingQueue (set_status b v s) = processingQueue s"
  "isProcessing (set_status b v s) = isProcessing s"
  "activations (set_status b v s) = activations s"
  "uuid_calls (set_status b v s) = uuid_calls s"
  "clock_calls (set_status b v s) = clock_calls s"
  "ingestionStore (set_status b v s) = ingestionStore s"
  by (simp_all add: set_status_def)

lemma loop_head_empty:
  "processingQueue s = [] \<Longrightarrow> loop_head s = (s\<lparr>isProcessing := False\<rparr>, None)"
  by (simp add: loop_head_def)

lemma loop_head_Cons:
  "processingQueue s = b # q \<Longrightarrow>
   loop_head s =
     (updateIngestionStatus b (set_status b triggered (s\<lparr>processingQueue := q\<rparr>)),
      Some (AwaitFetch b))"
  by (simp add: loop_head_def)

lemma sched_inv_store [simp]: "sched_inv (s\<lparr>ingestionStore := x\<rparr>) = sched_inv s"
  by (simp add: sched_inv_def)

lemma sched_inv_calls [simp]:
  "sched_inv (s\<lparr>uuid_calls := n\<rparr>) = sched_inv s"
  "sched_inv (s\<lparr>clock_calls := n\<rparr>) = sched_inv s"
  by (simp_all add: sched_inv_def)

lemma sched_inv_updateIngestionStatus [simp]:
  "sched_inv (updateIngestionStatus b s) = sched_inv s"
  by (simp add: sched_inv_def)

text \<open>Taking the front batch off the queue and setting it to triggered.\<close>

lemma sched_inv_dispatch:
  assumes inv: "distinct (processingQueue s)"
    "\<forall>a \<in> set (processingQueue s). a < length (heap s) \<and> status (heap s ! a) = yet_to_start"
    "\<forall>a < length (heap s). status (heap s ! a) \<noteq> triggered"
    and q: "processingQueue s = b # q"
  shows "sched_inv ((set_status b triggered (s\<lparr>processingQueue := q\<rparr>))
           \<lparr>isProcessing := True, activations := [AwaitFetch b]\<rparr>)"
proof -
  from inv q have b: "b < length (heap s)" "b \<notin> set q" "distinct q" by auto
  have "status (((heap s)[b := (heap s ! b)\<lparr>status := triggered\<rparr>]) ! a) = yet_to_start"
    if "a \<in> set q" for a
    using that inv(2) q b by (auto simp: nth_list_update)
  moreover have "status (((heap s)[b := (heap s ! b)\<lparr>status := triggered\<rparr>]) ! a) = triggered \<longleftrightarrow> a = b"
    if "a < length (heap s)" for a
    using that inv(3) b by (auto simp: nth_list_update)
  ultimately show ?thesis
    using b inv(2) q by (simp add: sched_inv_def)
qed


lemma isArray_iff: "isArray v \<longleftrightarrow> (\<exists>xs. v = Some (JArr xs))"
  by (cases v rule: isArray.cases) simp_all

lemma ingest_invalid:
  "\<not> isArray (body_ids req) \<Longrightarrow> ingest U T req s = (Inl InvalidInput, s)"
  by (simp add: ingest_def Let_def)

lemma ingest_thrown:
  assumes "body_ids req = Some (JArr xs)"
    and "make_batches U T xs (priority_of req) 0 ([], s\<lparr>uuid_calls := Suc (uuid_calls s)\<rparr>) = (bs, s2)"
    and "sort_queue (heap s2) (processingQueue s2) = Inl e"
  shows "ingest U T req s = (Inl e, s2)"
  using assms by (simp add: ingest_def Let_def priority_of_def)

lemma ingest_stored:
  assumes "body_ids req = Some (JArr xs)"
    and "make_batches U T xs (priority_of req) 0 ([], s\<lparr>uuid_calls := Suc (uuid_calls s)\<rparr>) = (bs, s2)"
    and "sort_queue (heap s2) (processingQueue s2) = Inr q"
  shows "ingest U T req s =
           (Inr (U (uuid_calls s)),
            if isProcessing s2 then recorded U s bs q s2 else processBatches (recorded U s bs q s2))"
  using assms by (simp add: ingest_def Let_def priority_of_def recorded_def)

lemma ingest_cases:
  obtains
    (invalid) "\<not> isArray (body_ids req)" "ingest U T req s = (Inl InvalidInput, s)"
  | (thrown) xs bs s2 e where "body_ids req = Some (JArr xs)"
      "make_batches U T xs (priority_of req) 0 ([], s\<lparr>uuid_calls := Suc (uuid_calls s)\<rparr>) = (bs, s2)"
      "sort_queue (heap s2) (processingQueue s2) = Inl e"
      "ingest U T req s = (Inl e, s2)"
  | (stored) xs bs s2 q where "body_ids req = Some (JArr xs)"
      "make_batches U T xs (priority_of req) 0 ([], s\<lparr>uuid_calls := Suc (uuid_calls s)\<rparr>) = (bs, s2)"
      "sort_queue (heap s2) (processingQueue s2) = Inr q"
      "ingest U T req s =
         (Inr (U (uuid_calls s)),
          if isProcessing s2 then recorded U s bs q s2 else processBatches (recorded U s bs q s2))"
proof (cases "isArray (body_ids req)")
  case False
  then show ?thesis using invalid ingest_invalid by blast
next
  case True
  then obtain xs where xs: "body_ids req = Some (JArr xs)" by (auto simp: isArray_iff)
  obtain bs s2 where
    mb: "make_batches U T xs (priority_of req) 0 ([], s\<lparr>uuid_calls := Suc (uuid_calls s)\<rparr>) = (bs, s2)"
    by (cases "make_batches U T xs (priority_of req) 0 ([], s\<lparr>uuid_calls := Suc (uuid_calls s)\<rparr>)")
  show ?thesis
  proof (cases "sort_queue (heap s2) (processingQueue s2)")
    case (Inl e)
    from thrown[OF xs mb Inl ingest_thrown[OF xs mb Inl]] show ?thesis .
  next
    case (Inr q)
    from stored[OF xs mb Inr ingest_stored[OF xs mb Inr]] show ?thesis .
  qed
qed


lemma sched_inv_pushed:
  assumes "sched_inv s"
    and mb: "make_batches U T xs p 0 ([], s\<lparr>uuid_calls := n\<rparr>) = (bs, s2)"
  shows "sched_inv s2"
proof -
  let ?new = "map (created U T xs p 0 (s\<lparr>uuid_calls := n\<rparr>)) [0..<chunks_from (length xs) 0]"
  have h: "heap s2 = heap s @ ?new"
    and q: "processingQueue s2 = processingQueue s @ bs"
    and bs: "bs = [length (heap s)..<length (heap s) + chunks_from (length xs) 0]"
    and a: "activations s2 = activations s" and p: "isProcessing s2 = isProcessing s"
    using make_batches_result[OF mb] by simp_all
  have old: "heap s2 ! a = heap s ! a" if "a < length (heap s)" for a
    using that by (simp add: h nth_append)
  have new: "status (heap s2 ! a) = yet_to_start" if "length (heap s) \<le> a" "a < length (heap s2)" for a
    using that by (simp add: h nth_append created_def)
  have len: "length (heap s) \<le> length (heap s2)" by (simp add: h)
  have d: "distinct (processingQueue s2)"
    using assms(1) by (auto simp: q bs sched_inv_def)
  have y: "\<forall>a \<in> set (processingQueue s2). a < length (heap s2) \<and> status (heap s2 ! a) = yet_to_start"
  proof
    fix a assume "a \<in> set (processingQueue s2)"
    then consider "a \<in> set (processingQueue s)" | "length (heap s) \<le> a" "a < length (heap s2)"
      by (auto simp: q bs h)
    then show "a < length (heap s2) \<and> status (heap s2 ! a) = yet_to_start"
    proof cases
      case 1
      then have "a < length (heap s)" "status (heap s ! a) = yet_to_start"
        using assms(1) by (auto simp: sched_inv_def)
      then show ?thesis using old len by simp
    next
      case 2
      then show ?thesis using new by simp
    qed
  qed
  have t: "status (heap s2 ! a) = triggered \<longleftrightarrow> a < length (heap s) \<and> status (heap s ! a) = triggered"
    if "a < length (heap s2)" for a
  proof (cases "a < length (heap s)")
    case True
    then show ?thesis using old by simp
  next
    case False
    then show ?thesis using new[of a] that by simp
  qed
  from assms(1) have "(activations s = [] \<and> \<not> isProcessing s \<and>
         (\<forall>a < length (heap s). status (heap s ! a) \<noteq> triggered)) \<or>
      (activations s = [AwaitCooldown] \<and> isProcessing s \<and>
         (\<forall>a < length (heap s). status (heap s ! a) \<noteq> triggered)) \<or>
      (\<exists>b. activations s = [AwaitFetch b] \<and> isProcessing s \<and> b < length (heap s) \<and>
         (\<forall>a < length (heap s). status (heap s ! a) = triggered \<longleftrightarrow> a = b))"
    by (simp add: sched_inv_def)
  then have "(activations s2 = [] \<and> \<not> isProcessing s2 \<and>
         (\<forall>a < length (heap s2). status (heap s2 ! a) \<noteq> triggered)) \<or>
      (activations s2 = [AwaitCooldown] \<and> isProcessing s2 \<and>
         (\<forall>a < length (heap s2). status (heap s2 ! a) \<noteq> triggered)) \<or>
      (\<exists>b. activations s2 = [AwaitFetch b] \<and> isProcessing s2 \<and> b < length (heap s2) \<and>
         (\<forall>a < length (heap s2). status (heap s2 ! a) = triggered \<longleftrightarrow> a = b))"
    unfolding a p using t len by (elim disjE exE conjE) (simp, simp, force)
  with d y show ?thesis by (simp add: sched_inv_def)
qed

lemma sched_inv_permute:
  assumes "sched_inv s" and "set q = set (processingQueue s)" and "distinct q"
  shows "sched_inv (s\<lparr>processingQueue := q\<rparr>)"
  using assms by (simp add: sched_inv_def)

lemma sched_inv_idle:
  assumes "sched_inv s" and "\<not> isProcessing s"
  shows "activations s = []" and "\<forall>a < length (heap s). status (heap s ! a) \<noteq> triggered"
  using assms by (auto simp: sched_inv_def)

lemma sched_inv_loop_head:
  assumes inv: "distinct (processingQueue s)"
    "\<forall>a \<in> set (processingQueue s). a < length (heap s) \<and> status (heap s ! a) = yet_to_start"
    "\<forall>a < length (heap s). status (heap s ! a) \<noteq> triggered"
  shows "case loop_head s of
           (s', None) \<Rightarrow> sched_inv (s'\<lparr>activations := []\<rparr>)
         | (s', Some a) \<Rightarrow> sched_inv (s'\<lparr>isProcessing := True, activations := [a]\<rparr>)"
proof (cases "processingQueue s")
  case Nil
  then show ?thesis using inv by (simp add: loop_head_empty sched_inv_def)
next
  case (Cons b q)
  have "sched_inv ((updateIngestionStatus b (set_status b triggered (s\<lparr>processingQueue := q\<rparr>)))
           \<lparr>isProcessing := True, activations := [AwaitFetch b]\<rparr>)"
    using sched_inv_dispatch[OF inv Cons] by (simp add: sched_inv_def)
  then show ?thesis by (simp add: loop_head_Cons[OF Cons])
qed


lemma loop_head_activations [simp]: "activations (fst (loop_head s)) = activations s"
  by (cases "processingQueue s") (simp_all add: loop_head_def)

lemma sched_inv_processBatches:
  assumes "sched_inv s" and "\<not> isProcessing s"
  shows "sched_inv (processBatches s)"
proof -
  let ?s = "s\<lparr>isProcessing := True\<rparr>"
  have a: "activations s = []" using sched_inv_idle(1)[OF assms] .
  have inv: "distinct (processingQueue ?s)"
    "\<forall>a \<in> set (processingQueue ?s). a < length (heap ?s) \<and> status (heap ?s ! a) = yet_to_start"
    "\<forall>a < length (heap ?s). status (heap ?s ! a) \<noteq> triggered"
    using assms by (auto simp: sched_inv_def)
  obtain s' r where lh: "loop_head ?s = (s', r)" by (cases "loop_head ?s")
  have as: "activations s' = []" using loop_head_activations[of ?s] lh a by simp
  have s': "s'\<lparr>activations := []\<rparr> = s'" using as by (cases s') simp
  show ?thesis
  proof (cases r)
    case None
    then show ?thesis
      using sched_inv_loop_head[OF inv] lh s' by (simp add: processBatches_def)
  next
    case (Some x)
    have "isProcessing s'" using lh Some
      by (cases "processingQueue ?s") (auto simp: loop_head_def)
    then have "s'\<lparr>isProcessing := True, activations := [x]\<rparr> = s'\<lparr>activations := [x]\<rparr>"
      by (cases s') simp
    then show ?thesis
      using sched_inv_loop_head[OF inv] lh Some as by (simp add: processBatches_def)
  qed
qed

lemma sched_inv_after_fetch:
  assumes "sched_inv s"
  shows "sched_inv (after_fetch i s)"
proof (cases "i < length (activations s)")
  case False
  then show ?thesis using assms by (simp add: after_fetch_def)
next
  case True
  show ?thesis
  proof (cases "activations s ! i")
    case AwaitCooldown
    then show ?thesis using assms True by (simp add: after_fetch_def)
  next
    case (AwaitFetch b)
    with True assms have i: "i = 0" and a: "activations s = [AwaitFetch b]"
      by (auto simp: sched_inv_def)
    from assms a have b: "b < length (heap s)" "isProcessing s"
      "\<forall>a < length (heap s). status (heap s ! a) = triggered \<longleftrightarrow> a = b"
      "distinct (processingQueue s)"
      "\<forall>a \<in> set (processingQueue s). a < length (heap s) \<and> status (heap s ! a) = yet_to_start"
      by (auto simp: sched_inv_def)
    have nq: "b \<notin> set (processingQueue s)" using b(3,5) b(1) by auto
    have "sched_inv ((set_status b completed s)\<lparr>activations := [AwaitCooldown]\<rparr>)"
      using b nq unfolding sched_inv_def
      by (auto simp: nth_list_update)
    then have "sched_inv ((updateIngestionStatus b (set_status b completed s))\<lparr>activations := [AwaitCooldown]\<rparr>)"
      by (simp add: sched_inv_def)
    then show ?thesis using a i by (simp add: after_fetch_def)
  qed
qed

lemma sched_inv_after_cooldown:
  assumes "sched_inv s"
  shows "sched_inv (after_cooldown i s)"
proof (cases "i < length (activations s)")
  case False
  then show ?thesis using assms by (simp add: after_cooldown_def)
next
  case True
  show ?thesis
  proof (cases "activations s ! i")
    case (AwaitFetch b)
    then show ?thesis using assms True by (simp add: after_cooldown_def)
  next
    case AwaitCooldown
    with True assms have i: "i = 0" and a: "activations s = [AwaitCooldown]"
      by (auto simp: sched_inv_def)
    have inv: "distinct (processingQueue s)"
      "\<forall>a \<in> set (processingQueue s). a < length (heap s) \<and> status (heap s ! a) = yet_to_start"
      "\<forall>a < length (heap s). status (heap s ! a) \<noteq> triggered"
      using assms a by (auto simp: sched_inv_def)
    obtain s' r where lh: "loop_head s = (s', r)" by (cases "loop_head s")
    have as: "activations s' = [AwaitCooldown]" using loop_head_activations[of s] lh a by simp
    show ?thesis
    proof (cases r)
      case None
      then show ?thesis
        using sched_inv_loop_head[OF inv] lh a i as by (simp add: after_cooldown_def)
    next
      case (Some x)
      have "isProcessing s'" using lh Some assms a
        by (cases "processingQueue s") (auto simp: loop_head_def sched_inv_def)
      then have "s'\<lparr>isProcessing := True, activations := [x]\<rparr> = s'\<lparr>activations := [x]\<rparr>"
        by (cases s') simp
      then show ?thesis
        using sched_inv_loop_head[OF inv] lh Some a i as by (simp add: after_cooldown_def)
    qed
  qed
qed

lemma sort_queue_permutes:
  "sort_queue h q = Inr q' \<Longrightarrow> set q' = set q \<and> (distinct q \<longrightarrow> distinct q')"
  unfolding sort_queue_def using sort_by_set sort_by_distinct by blast

lemma sched_inv_ingest:
  assumes "sched_inv s"
  shows "sched_inv (snd (ingest U T req s))"
proof (cases rule: ingest_cases[of req U T s])
  case invalid
  then show ?thesis using assms by simp
next
  case (thrown xs bs s2 e)
  then show ?thesis using sched_inv_pushed[OF _ thrown(2)] assms by simp
next
  case (stored xs bs s2 q)
  have s2: "sched_inv s2" using sched_inv_pushed[OF _ stored(2)] assms by simp
  have "sched_inv (s2\<lparr>processingQueue := q\<rparr>)"
    using sched_inv_permute[OF s2] sort_queue_permutes[OF stored(3)] s2
    by (simp add: sched_inv_def)
  then have st: "sched_inv (recorded U s bs q s2)"
    by (simp add: recorded_def sched_inv_def)
  show ?thesis
  proof (cases "isProcessing s2")
    case True
    then show ?thesis using st stored(4) by simp
  next
    case False
    then have "\<not> isProcessing (recorded U s bs q s2)" by (simp add: recorded_def)
    from sched_inv_processBatches[OF st this] show ?thesis using stored(4) False by simp
  qed
qed

lemma sched_inv_step: "sched_inv s \<Longrightarrow> sched_inv (step U T s e)"
  by (cases e) (simp_all add: sched_inv_ingest sched_inv_after_fetch sched_inv_after_cooldown)

lemma run_snoc: "run U T (es @ [e]) = step U T (run U T es) e"
  by (simp add: run_def)

lemma sched_inv_run: "sched_inv (run U T es)"
proof (induction es rule: rev_induct)
  case Nil
  show ?case by (simp add: run_def init_def sched_inv_def)
next
  case (snoc e es)
  then show ?case by (simp add: run_snoc sched_inv_step)
qed

section \<open>How a step changes the status of a batch\<close>

lemma loop_head_heap:
  "heap (fst (loop_head s)) =
     (case processingQueue s of [] \<Rightarrow> heap s | b # q \<Rightarrow> (heap s)[b := (heap s ! b)\<lparr>status := triggered\<rparr>])"
  by (cases "processingQueue s") (simp_all add: loop_head_def)


lemma loop_head_status:
  assumes "\<forall>a \<in> set (processingQueue s). status (heap s ! a) = yet_to_start"
    and "a < length (heap s)"
  shows "status (heap (fst (loop_head s)) ! a) = status (heap s ! a) \<or>
         (status (heap s ! a) = yet_to_start \<and> status (heap (fst (loop_head s)) ! a) = triggered)"
proof (cases "processingQueue s")
  case Nil
  then show ?thesis by (simp add: loop_head_heap)
next
  case (Cons b q)
  then have "status (heap s ! b) = yet_to_start" using assms(1) by simp
  then show ?thesis using Cons assms(2) by (cases "a = b") (simp_all add: loop_head_heap)
qed

lemma loop_head_length [simp]: "length (heap (fst (loop_head s))) = length (heap s)"
  by (cases "processingQueue s") (simp_all add: loop_head_heap)

lemma processBatches_heap: "heap (processBatches s) = heap (fst (loop_head (s\<lparr>isProcessing := True\<rparr>)))"
  by (simp add: processBatches_def split: prod.splits option.splits)

lemma processBatches_status:
  assumes "\<forall>a \<in> set (processingQueue s). status (heap s ! a) = yet_to_start"
    and "a < length (heap s)"
  shows "status (heap (processBatches s) ! a) = status (heap s ! a) \<or>
         (status (heap s ! a) = yet_to_start \<and> status (heap (processBatches s) ! a) = triggered)"
  using loop_head_status[of "s\<lparr>isProcessing := True\<rparr>" a] assms
  by (simp add: processBatches_heap)

lemma processBatches_length: "length (heap (processBatches s)) = length (heap s)"
  using loop_head_length[of "s\<lparr>isProcessing := True\<rparr>"] by (simp add: processBatches_heap)

lemma after_cooldown_heap:
  "heap (after_cooldown i s) = heap s \<or> heap (after_cooldown i s) = heap (fst (loop_head s))"
  by (simp add: after_cooldown_def split: activation.splits prod.splits option.splits)

lemma after_cooldown_status:
  assumes "sched_inv s" and "a < length (heap s)"
  shows "length (heap (after_cooldown i s)) = length (heap s) \<and>
         (status (heap (after_cooldown i s) ! a) = status (heap s ! a) \<or>
          (status (heap s ! a) = yet_to_start \<and> status (heap (after_cooldown i s) ! a) = triggered))"
proof -
  have "\<forall>a \<in> set (processingQueue s). status (heap s ! a) = yet_to_start"
    using assms(1) by (simp add: sched_inv_def)
  from loop_head_status[OF this assms(2)] after_cooldown_heap[of i s]
  show ?thesis by auto
qed

lemma after_fetch_status:
  assumes "sched_inv s" and "a < length (heap s)"
  shows "length (heap (after_fetch i s)) = length (heap s) \<and>
         (status (heap (after_fetch i s) ! a) = status (heap s ! a) \<or>
          (status (heap s ! a) = triggered \<and> status (heap (after_fetch i s) ! a) = completed))"
proof (cases "i < length (activations s)")
  case False
  then show ?thesis by (simp add: after_fetch_def)
next
  case True
  show ?thesis
  proof (cases "activations s ! i")
    case AwaitCooldown
    then show ?thesis using True by (simp add: after_fetch_def)
  next
    case (AwaitFetch b)
    with True assms(1) have "activations s = [AwaitFetch b]" by (auto simp: sched_inv_def)
    with assms(1) have "b < length (heap s)" "status (heap s ! b) = triggered"
      by (auto simp: sched_inv_def)
    then show ?thesis using True AwaitFetch assms(2)
      by (cases "a = b") (simp_all add: after_fetch_def)
  qed
qed

lemma ingest_status:
  assumes "sched_inv s" and "a < length (heap s)"
  shows "length (heap s) \<le> length (heap (snd (ingest U T req s))) \<and>
         (status (heap (snd (ingest U T req s)) ! a) = status (heap s ! a) \<or>
          (status (heap s ! a) = yet_to_start \<and> status (heap (snd (ingest U T req s)) ! a) = triggered))"
proof (cases rule: ingest_cases[of req U T s])
  case invalid
  then show ?thesis by simp
next
  case (thrown xs bs s2 e)
  then show ?thesis using make_batches_result(2)[OF thrown(2)] assms(2) by (simp add: nth_append)
next
  case (stored xs bs s2 q)
  have h2: "heap s2 ! a = heap s ! a" "length (heap s) \<le> length (heap s2)"
    using make_batches_result(2)[OF stored(2)] assms(2) by (simp_all add: nth_append)
  have s2: "sched_inv s2" using sched_inv_pushed[OF _ stored(2)] assms by simp
  let ?s4 = "recorded U s bs q s2"
  have h4: "heap ?s4 = heap s2" by (simp add: recorded_def)
  have q4: "\<forall>a \<in> set (processingQueue ?s4). status (heap ?s4 ! a) = yet_to_start"
    using s2 sort_queue_permutes[OF stored(3)] by (simp add: recorded_def sched_inv_def)
  have a4: "a < length (heap ?s4)" using h2 h4 assms(2) by simp
  show ?thesis
  proof (cases "isProcessing s2")
    case True
    then show ?thesis using stored(4) h2 h4 by simp
  next
    case False
    have "length (heap (processBatches ?s4)) = length (heap s2)"
      by (simp add: processBatches_heap h4)
    then show ?thesis
      using processBatches_status[OF q4 a4] stored(4) False h2 h4 by simp
  qed
qed

lemma step_status:
  assumes "sched_inv s" and "a < length (heap s)"
  shows "length (heap s) \<le> length (heap (step U T s e)) \<and>
         advances (status (heap s ! a)) (status (heap (step U T s e) ! a))"
proof (cases e)
  case (Ingest req)
  then show ?thesis using ingest_status[OF assms, of U T req] by (auto simp: advances_def)
next
  case (FetchesSettled i)
  then show ?thesis using after_fetch_status[OF assms, of i] by (auto simp: advances_def)
next
  case (CooldownElapsed i)
  then show ?thesis using after_cooldown_status[OF assms, of i] by (auto simp: advances_def)
qed

section \<open>The store's invariant\<close>

lemma findIndex_None: "findIndex P xs = None \<longleftrightarrow> (\<forall>x \<in> set xs. \<not> P x)"
  by (induction xs) (auto split: option.splits)

lemma findIndex_Some:
  "findIndex P xs = Some i \<Longrightarrow> i < length xs \<and> P (xs ! i)"
proof (induction xs arbitrary: i)
  case Nil
  then show ?case by simp
next
  case (Cons x xs)
  show ?case
  proof (cases "P x")
    case True
    with Cons.prems show ?thesis by simp
  next
    case False
    with Cons.prems obtain j where j: "findIndex P xs = Some j" "i = Suc j"
      by (auto split: option.splits)
    from Cons.IH[OF j(1)] j(2) show ?thesis by simp
  qed
qed

lemma overall_status_cong:
  assumes "\<forall>a \<in> set bs. status (h' ! a) = status (h ! a)"
  shows "overall_status h' bs = overall_status h bs"
proof -
  have "list_all (\<lambda>b. status (h' ! b) = completed) bs = list_all (\<lambda>b. status (h ! b) = completed) bs"
    using assms by (simp add: list_all_iff)
  moreover have "list_ex (\<lambda>b. status (h' ! b) = triggered) bs = list_ex (\<lambda>b. status (h ! b) = triggered) bs"
    using assms by (simp add: list_ex_iff)
  ultimately show ?thesis by (simp add: overall_status_def)
qed

lemma expected_status_cong:
  "\<forall>a \<in> set bs. status (h' ! a) = status (h ! a) \<Longrightarrow> expected_status h' bs = expected_status h bs"
  by (simp add: expected_status_def overall_status_cong)

lemma update_entries_keys [simp]: "map fst (update_entries h u es) = map fst es"
  by (induction es) (auto split: option.splits simp: Let_def)

text \<open>Where batch ids are distinct, the scan finds the updated batch itself or nothing.\<close>

lemma findIndex_owner:
  assumes d: "distinct (map batch_id h)" and u: "u < length h"
    and v: "\<forall>a \<in> set bs. a < length h"
  shows "(findIndex (\<lambda>b. batch_id (h ! b) = batch_id (h ! u)) bs = None \<longleftrightarrow> u \<notin> set bs) \<and>
         (\<forall>i. findIndex (\<lambda>b. batch_id (h ! b) = batch_id (h ! u)) bs = Some i \<longrightarrow> bs[i := u] = bs)"
proof -
  have eq: "batch_id (h ! a) = batch_id (h ! u) \<longleftrightarrow> a = u" if "a \<in> set bs" for a
  proof -
    have "a < length h" using that v by simp
    then show ?thesis using d u by (auto simp: distinct_conv_nth)
  qed
  have "findIndex (\<lambda>b. batch_id (h ! b) = batch_id (h ! u)) bs = None \<longleftrightarrow> u \<notin> set bs"
    unfolding findIndex_None using eq by auto
  moreover have "bs[i := u] = bs"
    if "findIndex (\<lambda>b. batch_id (h ! b) = batch_id (h ! u)) bs = Some i" for i
  proof -
    from findIndex_Some[OF that] have "i < length bs" "batch_id (h ! (bs ! i)) = batch_id (h ! u)"
      by simp_all
    then have "bs ! i = u" using eq[of "bs ! i"] by simp
    then show ?thesis by (metis list_update_id)
  qed
  ultimately show ?thesis by blast
qed


lemma owned_Cons:
  "owned h (e # es) \<longleftrightarrow>
     (\<forall>a \<in> set (batches (snd e)). a < length h) \<and> distinct (batches (snd e)) \<and>
     (\<forall>e' \<in> set es. set (batches (snd e)) \<inter> set (batches (snd e')) = {}) \<and> owned h es"
  by (auto simp: owned_def)

lemma update_entries_recompute:
  assumes "distinct (map batch_id h)" and "u < length h" and "owned h es"
  shows "update_entries h u es = map (recompute h u) es"
  using assms(3)
proof (induction es)
  case Nil
  show ?case by simp
next
  case (Cons e es)
  obtain k d where e: "e = (k, d)" by (cases e)
  from Cons.prems have v: "\<forall>a \<in> set (batches d). a < length h"
    and disj: "\<forall>e' \<in> set es. set (batches d) \<inter> set (batches (snd e')) = {}"
    and rest: "owned h es"
    by (simp_all add: owned_Cons e)
  note fo = findIndex_owner[OF assms(1,2) v]
  show ?case
  proof (cases "u \<in> set (batches d)")
    case False
    then have "findIndex (\<lambda>b. batch_id (h ! b) = batch_id (h ! u)) (batches d) = None"
      using fo by simp
    then show ?thesis using Cons.IH[OF rest] False by (simp add: e recompute_def)
  next
    case True
    then obtain i where i: "findIndex (\<lambda>b. batch_id (h ! b) = batch_id (h ! u)) (batches d) = Some i"
      using fo by (cases "findIndex (\<lambda>b. batch_id (h ! b) = batch_id (h ! u)) (batches d)") auto
    then have same: "(batches d)[i := u] = batches d" using fo by simp
    have "recompute h u e' = e'" if "e' \<in> set es" for e'
      using disj that True by (auto simp: recompute_def)
    then have rest_same: "map (recompute h u) es = es" by (simp add: map_idI)
    have "recompute h u e = (k, d\<lparr>ingestion_status := overall_status h (batches d)\<rparr>)"
      using True by (simp add: recompute_def e)
    moreover have "update_entries h u (e # es) =
        (k, d\<lparr>ingestion_status := overall_status h (batches d)\<rparr>) # es"
      using i same by (simp add: e Let_def)
    ultimately show ?thesis using rest_same by simp
  qed
qed

lemma recompute_batches [simp]: "batches (snd (recompute h u e)) = batches (snd e)"
  by (simp add: recompute_def)

lemma recompute_key [simp]: "fst (recompute h u e) = fst e"
  by (simp add: recompute_def)

lemma owned_recompute: "owned h' (map (recompute h u) es) = owned h' es"
  by (simp add: owned_def comp_def)

lemma reconciled:
  fixes h :: "batch list" and v :: status and u :: addr
  defines "h' \<equiv> h[u := (h ! u)\<lparr>status := v\<rparr>]"
  assumes d: "distinct (map batch_id h)" and u: "u < length h"
    and o: "owned h es" and st: "statuses h es"
  shows "update_entries h' u es = map (recompute h' u) es"
    and "owned h' (update_entries h' u es)"
    and "statuses h' (update_entries h' u es)"
    and "map batch_id h' = map batch_id h"
proof -
  show ids: "map batch_id h' = map batch_id h"
    using u by (simp add: h'_def map_update list_update_same_conv)
  have o': "owned h' es" using o by (simp add: owned_def h'_def)
  have u': "u < length h'" using u by (simp add: h'_def)
  show eq: "update_entries h' u es = map (recompute h' u) es"
    using update_entries_recompute[OF _ u' o'] d ids by simp
  show "owned h' (update_entries h' u es)"
    using o' by (simp add: eq owned_recompute)
  have "ingestion_id (snd (recompute h' u e)) = fst (recompute h' u e) \<and>
        ingestion_status (snd (recompute h' u e)) = expected_status h' (batches (snd (recompute h' u e)))"
    if e: "e \<in> set es" for e
  proof (cases "u \<in> set (batches (snd e))")
    case True
    then have "batches (snd e) \<noteq> []" by auto
    then show ?thesis using st e True by (simp add: recompute_def statuses_def expected_status_def)
  next
    case False
    have "status (h' ! a) = status (h ! a)" if "a \<in> set (batches (snd e))" for a
    proof -
      from that False have "u \<noteq> a" by auto
      then show ?thesis by (simp add: h'_def)
    qed
    then have "\<forall>a \<in> set (batches (snd e)). status (h' ! a) = status (h ! a)"
      by simp
    from expected_status_cong[OF this] show ?thesis
      using st e False by (simp add: recompute_def statuses_def)
  qed
  then show "statuses h' (update_entries h' u es)"
    by (simp add: eq statuses_def)
qed


lemma store_inv_fields [simp]:
  "store_inv U (s\<lparr>processingQueue := q\<rparr>) = store_inv U s"
  "store_inv U (s\<lparr>isProcessing := p\<rparr>) = store_inv U s"
  "store_inv U (s\<lparr>activations := a\<rparr>) = store_inv U s"
  "store_inv U (s\<lparr>clock_calls := c\<rparr>) = store_inv U s"
  by (simp_all add: store_inv_def ids_inv_def)

lemma store_inv_reconcile:
  assumes "store_inv U s" and "b < length (heap s)"
  shows "store_inv U (updateIngestionStatus b (set_status b v s))"
proof -
  from assms(1) have d: "distinct (map batch_id (heap s))"
    and o: "owned (heap s) (ingestionStore s)" and st: "statuses (heap s) (ingestionStore s)"
    and i: "ids_inv U s"
    by (simp_all add: store_inv_def ids_inv_def)
  note r = reconciled[OF d assms(2) o st, of v]
  have "ids_inv U (updateIngestionStatus b (set_status b v s))"
    using i r(4) by (simp add: ids_inv_def)
  then show ?thesis using r(2,3) by (simp add: store_inv_def)
qed

lemma store_inv_loop_head:
  assumes "store_inv U s" and "\<forall>a \<in> set (processingQueue s). a < length (heap s)"
  shows "store_inv U (fst (loop_head s))"
proof (cases "processingQueue s")
  case Nil
  then show ?thesis using assms(1) by (simp add: loop_head_empty)
next
  case (Cons b q)
  then have b: "b < length (heap (s\<lparr>processingQueue := q\<rparr>))" using assms(2) by simp
  have "store_inv U (s\<lparr>processingQueue := q\<rparr>)" using assms(1) by simp
  from store_inv_reconcile[OF this b] show ?thesis by (simp add: loop_head_Cons[OF Cons])
qed

lemma store_inv_processBatches:
  assumes "store_inv U s" and "\<forall>a \<in> set (processingQueue s). a < length (heap s)"
  shows "store_inv U (processBatches s)"
proof -
  have "store_inv U (fst (loop_head (s\<lparr>isProcessing := True\<rparr>)))"
    using store_inv_loop_head[of U "s\<lparr>isProcessing := True\<rparr>"] assms by simp
  then show ?thesis by (auto simp: processBatches_def split: prod.splits option.splits)
qed

lemma store_inv_after_cooldown:
  assumes "store_inv U s" and "sched_inv s"
  shows "store_inv U (after_cooldown i s)"
proof -
  have "\<forall>a \<in> set (processingQueue s). a < length (heap s)"
    using assms(2) by (simp add: sched_inv_def)
  from store_inv_loop_head[OF assms(1) this] assms(1) show ?thesis
    by (auto simp: after_cooldown_def split: prod.splits option.splits activation.splits)
qed

lemma store_inv_after_fetch:
  assumes "store_inv U s" and "sched_inv s"
  shows "store_inv U (after_fetch i s)"
proof (cases "i < length (activations s)")
  case False
  then show ?thesis using assms(1) by (simp add: after_fetch_def)
next
  case True
  show ?thesis
  proof (cases "activations s ! i")
    case AwaitCooldown
    then show ?thesis using assms(1) True by (simp add: after_fetch_def)
  next
    case (AwaitFetch b)
    with True assms(2) have "activations s = [AwaitFetch b]" by (auto simp: sched_inv_def)
    with assms(2) have "b < length (heap s)" by (auto simp: sched_inv_def)
    from store_inv_reconcile[OF assms(1) this] show ?thesis
      using True AwaitFetch by (simp add: after_fetch_def)
  qed
qed


lemma store_set_fresh: "k \<notin> set (map fst es) \<Longrightarrow> store_set k v es = es @ [(k, v)]"
  by (induction es) auto

lemma overall_status_fresh:
  assumes "\<forall>a \<in> set bs. status (h ! a) = yet_to_start"
  shows "expected_status h bs = yet_to_start"
proof (cases bs)
  case Nil
  then show ?thesis by (simp add: expected_status_def)
next
  case (Cons b bs')
  then have "status (h ! b) = yet_to_start" using assms by simp
  then have "\<not> list_all (\<lambda>b. status (h ! b) = completed) bs" using Cons by simp
  moreover have "\<not> list_ex (\<lambda>b. status (h ! b) = triggered) bs"
    using assms by (simp add: list_ex_iff)
  ultimately show ?thesis using Cons by (simp add: expected_status_def overall_status_def)
qed

lemma store_inv_pushed:
  assumes inj: "inj U" and inv: "store_inv U s"
    and mb: "make_batches U T xs p 0 ([], s\<lparr>uuid_calls := Suc (uuid_calls s)\<rparr>) = (bs, s2)"
  shows "store_inv U s2"
    and "U (uuid_calls s) \<notin> set (map fst (ingestionStore s2))"
    and "\<forall>a \<in> set bs. length (heap s) \<le> a \<and> a < length (heap s2) \<and> status (heap s2 ! a) = yet_to_start"
    and "distinct bs"
    and "uuid_calls s < uuid_calls s2"
proof -
  let ?s0 = "s\<lparr>uuid_calls := Suc (uuid_calls s)\<rparr>"
  let ?n = "chunks_from (length xs) 0"
  have bs: "bs = [length (heap s)..<length (heap s) + ?n]"
    and h: "heap s2 = heap s @ map (created U T xs p 0 ?s0) [0..<?n]"
    and u: "uuid_calls s2 = Suc (uuid_calls s) + length bs"
    and st: "ingestionStore s2 = ingestionStore s"
    using make_batches_result[OF mb] by simp_all
  have n: "length bs = ?n" by (simp add: bs)
  show "distinct bs" by (simp add: bs)
  show lt: "uuid_calls s < uuid_calls s2" by (simp add: u)
  have old: "heap s2 ! a = heap s ! a" if "a < length (heap s)" for a
    using that by (simp add: h nth_append)
  show "\<forall>a \<in> set bs. length (heap s) \<le> a \<and> a < length (heap s2) \<and> status (heap s2 ! a) = yet_to_start"
    by (auto simp: bs h nth_append created_def)
  from inv have i: "ids_inv U s" and o: "owned (heap s) (ingestionStore s)"
    and ss: "statuses (heap s) (ingestionStore s)"
    by (simp_all add: store_inv_def)
  have keys: "\<forall>k \<in> set (map fst (ingestionStore s)). \<exists>m < uuid_calls s. k = U m"
    using i by (simp add: ids_inv_def)
  show "U (uuid_calls s) \<notin> set (map fst (ingestionStore s2))"
  proof
    assume "U (uuid_calls s) \<in> set (map fst (ingestionStore s2))"
    then obtain m where "m < uuid_calls s" "U (uuid_calls s) = U m" using keys st by auto
    then show False using inj by (auto dest: injD)
  qed
  have ids: "map batch_id (heap s2) =
      map batch_id (heap s) @ map (\<lambda>k. U (Suc (uuid_calls s) + k)) [0..<?n]"
    by (simp add: h created_def)
  have drawn_old: "\<forall>i \<in> set (map batch_id (heap s)). \<exists>m < uuid_calls s. i = U m"
    using i by (simp add: ids_inv_def)
  have d_new: "distinct (map (\<lambda>k. U (Suc (uuid_calls s) + k)) [0..<?n])"
  proof -
    have "inj_on (\<lambda>k. U (Suc (uuid_calls s) + k)) (set [0..<?n])"
    proof (rule inj_onI)
      fix x y assume "U (Suc (uuid_calls s) + x) = U (Suc (uuid_calls s) + y)"
      with inj have "Suc (uuid_calls s) + x = Suc (uuid_calls s) + y" by (rule injD)
      then show "x = y" by simp
    qed
    then show ?thesis by (simp add: distinct_map)
  qed
  have disj: "set (map batch_id (heap s)) \<inter> set (map (\<lambda>k. U (Suc (uuid_calls s) + k)) [0..<?n]) = {}"
  proof (rule ccontr)
    assume "\<not> ?thesis"
    then obtain i where i1: "i \<in> set (map batch_id (heap s))"
      and i2: "i \<in> set (map (\<lambda>k. U (Suc (uuid_calls s) + k)) [0..<?n])" by blast
    from i1 drawn_old obtain m where m: "m < uuid_calls s" "i = U m" by blast
    from i2 obtain k where "i = U (Suc (uuid_calls s) + k)" by auto
    with m inj show False by (auto dest: injD)
  qed
  have "distinct (map batch_id (heap s2))"
    using i d_new disj unfolding ids by (simp add: ids_inv_def)
  moreover have "\<forall>i \<in> set (map batch_id (heap s2)). \<exists>m < uuid_calls s2. i = U m"
  proof
    fix i assume "i \<in> set (map batch_id (heap s2))"
    then consider "i \<in> set (map batch_id (heap s))"
      | k where "k < ?n" "i = U (Suc (uuid_calls s) + k)"
      unfolding ids by auto
    then show "\<exists>m < uuid_calls s2. i = U m"
    proof cases
      case 1
      then obtain m where "m < uuid_calls s" "i = U m" using drawn_old by blast
      then show ?thesis using lt by (auto intro: exI[of _ m])
    next
      case 2
      then have "Suc (uuid_calls s) + k < uuid_calls s2" by (simp add: u n)
      then show ?thesis using 2 by blast
    qed
  qed
  moreover have "\<forall>k \<in> set (map fst (ingestionStore s2)). \<exists>m < uuid_calls s2. k = U m"
    using keys lt unfolding st by (meson less_trans)
  moreover have "distinct (map fst (ingestionStore s2))"
    using i by (simp add: st ids_inv_def)
  ultimately have "ids_inv U s2" by (simp add: ids_inv_def)
  moreover have "owned (heap s2) (ingestionStore s2)"
  proof -
    have "length (heap s) \<le> length (heap s2)" by (simp add: h)
    then show ?thesis using o unfolding owned_def st by (meson less_le_trans)
  qed
  moreover have "statuses (heap s2) (ingestionStore s2)"
  proof -
    have "expected_status (heap s2) (batches (snd e)) = expected_status (heap s) (batches (snd e))"
      if "e \<in> set (ingestionStore s)" for e
    proof (rule expected_status_cong)
      show "\<forall>a \<in> set (batches (snd e)). status (heap s2 ! a) = status (heap s ! a)"
        using o that old by (auto simp: owned_def)
    qed
    then show ?thesis using ss by (simp add: statuses_def st)
  qed
  ultimately show "store_inv U s2" by (simp add: store_inv_def)
qed

lemma store_inv_recorded:
  assumes inj: "inj U" and inv: "store_inv U s"
    and mb: "make_batches U T xs p 0 ([], s\<lparr>uuid_calls := Suc (uuid_calls s)\<rparr>) = (bs, s2)"
  shows "store_inv U (recorded U s bs q s2)"
proof -
  note p = store_inv_pushed[OF assms]
  let ?k = "U (uuid_calls s)"
  let ?v = "\<lparr>ingestion_id = ?k, ingestion_status = yet_to_start, batches = bs\<rparr>"
  have h: "heap (recorded U s bs q s2) = heap s2"
    and c: "uuid_calls (recorded U s bs q s2) = uuid_calls s2"
    and st: "ingestionStore (recorded U s bs q s2) = ingestionStore s2 @ [(?k, ?v)]"
    using store_set_fresh[OF p(2)] by (simp_all add: recorded_def)
  from p(1) have i: "ids_inv U s2" and o: "owned (heap s2) (ingestionStore s2)"
    and ss: "statuses (heap s2) (ingestionStore s2)"
    by (simp_all add: store_inv_def)
  have "ids_inv U (recorded U s bs q s2)"
    using i p(2,5) unfolding ids_inv_def h c st by auto
  moreover have "owned (heap (recorded U s bs q s2)) (ingestionStore (recorded U s bs q s2))"
  proof -
    have old: "\<forall>e \<in> set (ingestionStore s2). \<forall>a \<in> set (batches (snd e)). a < length (heap s)"
      using inv make_batches_result(6)[OF mb] by (simp add: store_inv_def owned_def)
    have "set (concat (map (\<lambda>e. batches (snd e)) (ingestionStore s2))) \<inter> set bs = {}"
      using old p(3) by fastforce
    then show ?thesis
      using o p(3,4) unfolding owned_def h st by auto
  qed
  moreover have "statuses (heap (recorded U s bs q s2)) (ingestionStore (recorded U s bs q s2))"
  proof -
    have "expected_status (heap s2) bs = yet_to_start"
      using p(3) by (intro overall_status_fresh) simp
    then show ?thesis using ss unfolding statuses_def h st by auto
  qed
  ultimately show ?thesis by (simp add: store_inv_def)
qed


lemma store_inv_ingest:
  assumes "inj U" and "store_inv U s" and "sched_inv s"
  shows "store_inv U (snd (ingest U T req s))"
proof (cases rule: ingest_cases[of req U T s])
  case invalid
  then show ?thesis using assms(2) by simp
next
  case (thrown xs bs s2 e)
  then show ?thesis using store_inv_pushed(1)[OF assms(1,2) thrown(2)] by simp
next
  case (stored xs bs s2 q)
  let ?s4 = "recorded U s bs q s2"
  have s4: "store_inv U ?s4" using store_inv_recorded[OF assms(1,2) stored(2)] .
  show ?thesis
  proof (cases "isProcessing s2")
    case True
    then show ?thesis using s4 stored(4) by simp
  next
    case False
    have "sched_inv s2" using sched_inv_pushed[OF _ stored(2)] assms(3) by simp
    then have "\<forall>a \<in> set (processingQueue ?s4). a < length (heap ?s4)"
      using sort_queue_permutes[OF stored(3)] by (simp add: recorded_def sched_inv_def)
    from store_inv_processBatches[OF s4 this] show ?thesis using stored(4) False by simp
  qed
qed

lemma store_inv_step:
  assumes "inj U" and "store_inv U s" and "sched_inv s"
  shows "store_inv U (step U T s e)"
  using assms
  by (cases e) (simp_all add: store_inv_ingest store_inv_after_fetch store_inv_after_cooldown)

lemma store_inv_run: "inj U \<Longrightarrow> store_inv U (run U T es)"
proof (induction es rule: rev_induct)
  case Nil
  show ?case by (simp add: run_def init_def store_inv_def ids_inv_def owned_def statuses_def)
next
  case (snoc e es)
  then show ?case by (simp add: run_snoc store_inv_step sched_inv_run)
qed

section \<open>One loop, one batch in flight\<close>

lemma ingest_while_processing:
  assumes "isProcessing s"
  shows "activations (snd (ingest U T req s)) = activations s \<and>
         isProcessing (snd (ingest U T req s)) \<and>
         set (processingQueue (snd (ingest U T req s))) =
           set (processingQueue s) \<union> {length (heap s)..<length (heap (snd (ingest U T req s)))}"
proof (cases rule: ingest_cases[of req U T s])
  case invalid
  then show ?thesis using assms by simp
next
  case (thrown xs bs s2 e)
  note r = make_batches_result[OF thrown(2)]
  show ?thesis using assms thrown(4) r(3,7,8) by (simp add: r(1,2))
next
  case (stored xs bs s2 q)
  note r = make_batches_result[OF stored(2)]
  have "set q = set (processingQueue s2)" using sort_queue_permutes[OF stored(3)] by simp
  then show ?thesis using assms stored(4) r(3,7,8) by (simp add: r(1,2) recorded_def)
qed

text \<open>
  Claim C8. In every state the process can reach, at most one activation of
  \<^verbatim>\<open>processBatches\<close> exists, the flag \<^verbatim>\<open>isProcessing\<close> is set exactly while one exists, and at most
  one batch is triggered, namely the batch whose fetches that activation awaits. A request that
  arrives while the flag is set starts no activation: it leaves the activations as they are and
  adds exactly its new batches to the queue.
\<close>

theorem one_loop_one_batch:
  fixes U T es req
  defines "s \<equiv> run U T es" and "s' \<equiv> step U T (run U T es) (Ingest req)"
  shows "length (activations s) \<le> 1 \<and>
         (isProcessing s \<longleftrightarrow> activations s \<noteq> []) \<and>
         (\<forall>a < length (heap s). status (heap s ! a) = triggered \<longrightarrow> activations s = [AwaitFetch a]) \<and>
         (\<forall>a < length (heap s). \<forall>b < length (heap s).
            status (heap s ! a) = triggered \<and> status (heap s ! b) = triggered \<longrightarrow> a = b) \<and>
         (isProcessing s \<longrightarrow>
            activations s' = activations s \<and>
            set (processingQueue s') = set (processingQueue s) \<union> {length (heap s)..<length (heap s')})"
proof -
  have inv: "sched_inv s" unfolding s_def by (rule sched_inv_run)
  then have a: "length (activations s) \<le> 1" and f: "isProcessing s \<longleftrightarrow> activations s \<noteq> []"
    by (auto simp: sched_inv_def)
  have t: "activations s = [AwaitFetch a]" if "a < length (heap s)" "status (heap s ! a) = triggered" for a
    using inv that by (auto simp: sched_inv_def)
  have "a = b" if "a < length (heap s)" "b < length (heap s)"
    "status (heap s ! a) = triggered" "status (heap s ! b) = triggered" for a b
    using t[OF that(1,3)] t[OF that(2,4)] by simp
  moreover have "activations s' = activations s \<and>
      set (processingQueue s') = set (processingQueue s) \<union> {length (heap s)..<length (heap s')}"
    if "isProcessing s"
    using ingest_while_processing[OF that, of U T req] by (simp add: s'_def s_def)
  ultimately show ?thesis using a f t by blast
qed

theorem one_loop_one_batch_witness:
  "activations (run U0 T0 two_batches) = [AwaitFetch 0] \<and>
   isProcessing (run U0 T0 two_batches) \<and>
   status (heap (run U0 T0 two_batches) ! 0) = triggered \<and>
   status (heap (run U0 T0 two_batches) ! 1) = yet_to_start \<and>
   activations (step U0 T0 (run U0 T0 two_batches) (Ingest (post [JNum 5] ''HIGH''))) = [AwaitFetch 0] \<and>
   processingQueue (step U0 T0 (run U0 T0 two_batches) (Ingest (post [JNum 5] ''HIGH''))) = [2, 1]"
proof -
  have e: "activations (run U0 T0 two_batches) = [AwaitFetch 0]"
    "isProcessing (run U0 T0 two_batches)"
    "status (heap (run U0 T0 two_batches) ! 0) = triggered"
    "status (heap (run U0 T0 two_batches) ! 1) = yet_to_start"
    "processingQueue (step U0 T0 (run U0 T0 two_batches) (Ingest (post [JNum 5] ''HIGH''))) = [2, 1]"
    by code_simp+
  from one_loop_one_batch[of U0 T0 two_batches "post [JNum 5] ''HIGH''"] e(1,2)
  have "activations (step U0 T0 (run U0 T0 two_batches) (Ingest (post [JNum 5] ''HIGH''))) = [AwaitFetch 0]"
    by simp
  with e show ?thesis by simp
qed

section \<open>The life of a batch\<close>

lemma ingest_new_status:
  assumes "sched_inv s" and "length (heap s) \<le> a" and "a < length (heap (snd (ingest U T req s)))"
  shows "status (heap (snd (ingest U T req s)) ! a) \<noteq> completed"
proof (cases rule: ingest_cases[of req U T s])
  case invalid
  then show ?thesis using assms by simp
next
  case (thrown xs bs s2 e)
  then show ?thesis using make_batches_result(2)[OF thrown(2)] assms(2,3)
    by (simp add: nth_append created_def)
next
  case (stored xs bs s2 q)
  have n: "status (heap s2 ! a) = yet_to_start" if "a < length (heap s2)"
    using make_batches_result(2)[OF stored(2)] assms(2) that
    by (simp add: nth_append created_def)
  have s2: "sched_inv s2" using sched_inv_pushed[OF _ stored(2)] assms(1) by simp
  let ?s4 = "recorded U s bs q s2"
  have h4: "heap ?s4 = heap s2" by (simp add: recorded_def)
  have q4: "\<forall>a \<in> set (processingQueue ?s4). status (heap ?s4 ! a) = yet_to_start"
    using s2 sort_queue_permutes[OF stored(3)] by (simp add: recorded_def sched_inv_def)
  show ?thesis
  proof (cases "isProcessing s2")
    case True
    then show ?thesis using stored(4) h4 n assms(3) by simp
  next
    case False
    have l: "length (heap (processBatches ?s4)) = length (heap s2)"
      by (simp add: processBatches_heap h4)
    then have a4: "a < length (heap ?s4)" using assms(3) stored(4) False h4 by simp
    from processBatches_status[OF q4 a4] n show ?thesis
      using stored(4) False h4 a4 by auto
  qed
qed

lemma step_new_status:
  assumes "sched_inv s" and "length (heap s) \<le> a" and "a < length (heap (step U T s e))"
  shows "status (heap (step U T s e) ! a) \<noteq> completed"
proof (cases e)
  case (Ingest req)
  then show ?thesis using ingest_new_status[OF assms(1,2), of U T req] assms(3) by simp
next
  case (FetchesSettled i)
  have "length (heap (after_fetch i s)) = length (heap s)"
    by (simp add: after_fetch_def split: activation.splits)
  then show ?thesis using assms(2,3) FetchesSettled by simp
next
  case (CooldownElapsed i)
  have "length (heap (after_cooldown i s)) = length (heap s)"
    using after_cooldown_heap[of i s] by auto
  then show ?thesis using assms(2,3) CooldownElapsed by simp
qed

lemma overall_status_triggered:
  assumes "b \<in> set bs" and "status (h ! b) = triggered"
  shows "overall_status h bs = triggered"
proof -
  have "status (h ! b) \<noteq> completed" using assms(2) by simp
  then have "\<not> list_all (\<lambda>b. status (h ! b) = completed) bs"
    using assms(1) unfolding list_all_iff by blast
  moreover have "list_ex (\<lambda>b. status (h ! b) = triggered) bs"
    using assms by (auto simp: list_ex_iff)
  ultimately show ?thesis by (simp add: overall_status_def)
qed

lemma get_status_entry:
  assumes "get_status k s = Inr v"
  obtains d where "(k, d) \<in> set (ingestionStore s)" "view_status v = ingestion_status d"
    "view_batches v = map (\<lambda>b. heap s ! b) (batches d)" "view_id v = ingestion_id d"
proof -
  from assms obtain d where d: "map_of (ingestionStore s) k = Some d"
    and v: "v = \<lparr>view_id = ingestion_id d, view_status = ingestion_status d,
               view_batches = map (\<lambda>b. heap s ! b) (batches d)\<rparr>"
    by (auto simp: get_status_def split: option.splits)
  from d have "(k, d) \<in> set (ingestionStore s)" by (rule map_of_SomeD)
  then show ?thesis using that v by simp
qed

text \<open>In a state that satisfies both invariants, what a client sees of a batch in flight.\<close>

lemma in_flight_published:
  assumes sch: "sched_inv s" and sto: "store_inv U s"
    and b: "AwaitFetch b \<in> set (activations s)"
    and g: "get_status k s = Inr v"
    and x: "x \<in> set (view_batches v)" "batch_id x = batch_id (heap s ! b)"
  shows "status x = triggered \<and> view_status v = triggered"
proof -
  from sch b have bl: "b < length (heap s)" and bt: "status (heap s ! b) = triggered"
    by (auto simp: sched_inv_def)
  from g obtain d where d: "(k, d) \<in> set (ingestionStore s)"
    "view_status v = ingestion_status d" "view_batches v = map (\<lambda>b. heap s ! b) (batches d)"
    by (rule get_status_entry)
  from x(1) d(3) obtain a where a: "a \<in> set (batches d)" "x = heap s ! a" by auto
  from sto d(1) a(1) have al: "a < length (heap s)" by (force simp: store_inv_def owned_def)
  from sto have "distinct (map batch_id (heap s))" by (simp add: store_inv_def ids_inv_def)
  then have "a = b" using x(2) a(2) al bl by (auto simp: distinct_conv_nth)
  then have in_d: "b \<in> set (batches d)" using a(1) by simp
  from sto d(1) have "ingestion_status d = expected_status (heap s) (batches d)"
    by (force simp: store_inv_def statuses_def)
  then have "ingestion_status d = triggered"
    using in_d overall_status_triggered[OF in_d bt] by (auto simp: expected_status_def)
  then show ?thesis using d(2) a(2) \<open>a = b\<close> bt by simp
qed

text \<open>
  Ids never repeating, an ingestion once stored stays in the store under its id with the same
  batches: a reconciliation only recomputes a status, and a later request writes under a new
  id.
\<close>

lemma reconcile_keeps:
  assumes "store_inv U s" and "b < length (heap s)" and "(k, d) \<in> set (ingestionStore s)"
  shows "\<exists>d'. (k, d') \<in> set (ingestionStore (updateIngestionStatus b (set_status b v s))) \<and>
              batches d' = batches d"
proof -
  from assms(1) have d: "distinct (map batch_id (heap s))"
    and o: "owned (heap s) (ingestionStore s)" and st: "statuses (heap s) (ingestionStore s)"
    by (simp_all add: store_inv_def ids_inv_def)
  let ?h = "(heap s)[b := (heap s ! b)\<lparr>status := v\<rparr>]"
  have r: "update_entries ?h b (ingestionStore s) = map (recompute ?h b) (ingestionStore s)"
    using reconciled(1)[OF d assms(2) o st, of v] .
  have "recompute ?h b (k, d) \<in> set (map (recompute ?h b) (ingestionStore s))"
    using assms(3) by simp
  then have "recompute ?h b (k, d) \<in> set (ingestionStore (updateIngestionStatus b (set_status b v s)))"
    using r by simp
  moreover have "fst (recompute ?h b (k, d)) = k" "batches (snd (recompute ?h b (k, d))) = batches d"
    by simp_all
  ultimately show ?thesis by (metis prod.collapse)
qed

lemma loop_head_keeps:
  assumes "store_inv U s" and "\<forall>a \<in> set (processingQueue s). a < length (heap s)"
    and "(k, d) \<in> set (ingestionStore s)"
  shows "\<exists>d'. (k, d') \<in> set (ingestionStore (fst (loop_head s))) \<and> batches d' = batches d"
proof (cases "processingQueue s")
  case Nil
  then show ?thesis using assms(3) by (auto simp: loop_head_empty)
next
  case (Cons b q)
  then have b: "b < length (heap (s\<lparr>processingQueue := q\<rparr>))" using assms(2) by simp
  have i: "store_inv U (s\<lparr>processingQueue := q\<rparr>)" using assms(1) by simp
  have m: "(k, d) \<in> set (ingestionStore (s\<lparr>processingQueue := q\<rparr>))" using assms(3) by simp
  from reconcile_keeps[OF i b m, of triggered] show ?thesis by (simp add: loop_head_Cons[OF Cons])
qed

lemma processBatches_store:
  "ingestionStore (processBatches s) = ingestionStore (fst (loop_head (s\<lparr>isProcessing := True\<rparr>)))"
  by (simp add: processBatches_def split: prod.splits option.splits)

lemma processBatches_keeps:
  assumes "store_inv U s" and "\<forall>a \<in> set (processingQueue s). a < length (heap s)"
    and "(k, d) \<in> set (ingestionStore s)"
  shows "\<exists>d'. (k, d') \<in> set (ingestionStore (processBatches s)) \<and> batches d' = batches d"
  using loop_head_keeps[of U "s\<lparr>isProcessing := True\<rparr>" k d] assms
  by (simp add: processBatches_store)

lemma after_cooldown_keeps:
  assumes "store_inv U s" and "sched_inv s" and "(k, d) \<in> set (ingestionStore s)"
  shows "\<exists>d'. (k, d') \<in> set (ingestionStore (after_cooldown i s)) \<and> batches d' = batches d"
proof -
  have "\<forall>a \<in> set (processingQueue s). a < length (heap s)"
    using assms(2) by (simp add: sched_inv_def)
  from loop_head_keeps[OF assms(1) this assms(3)] assms(3) show ?thesis
    by (auto simp: after_cooldown_def split: prod.splits option.splits activation.splits)
qed

lemma after_fetch_keeps:
  assumes "store_inv U s" and "sched_inv s" and "(k, d) \<in> set (ingestionStore s)"
  shows "\<exists>d'. (k, d') \<in> set (ingestionStore (after_fetch i s)) \<and> batches d' = batches d"
proof (cases "i < length (activations s)")
  case False
  then show ?thesis using assms(3) by (auto simp: after_fetch_def)
next
  case True
  show ?thesis
  proof (cases "activations s ! i")
    case AwaitCooldown
    then show ?thesis using assms(3) True by (auto simp: after_fetch_def)
  next
    case (AwaitFetch b)
    with True assms(2) have "activations s = [AwaitFetch b]" by (auto simp: sched_inv_def)
    with assms(2) have "b < length (heap s)" by (auto simp: sched_inv_def)
    from reconcile_keeps[OF assms(1) this assms(3), of completed] show ?thesis
      using True AwaitFetch by (simp add: after_fetch_def)
  qed
qed

text \<open>
  A request that is answered with an id has stored an ingestion under it that holds exactly
  the batches the request created, and it leaves the ingestions stored before as they were.
\<close>

lemma ingest_keeps:
  assumes "inj U" and "store_inv U s" and "sched_inv s" and "(k, d) \<in> set (ingestionStore s)"
  shows "\<exists>d'. (k, d') \<in> set (ingestionStore (snd (ingest U T req s))) \<and> batches d' = batches d"
proof (cases rule: ingest_cases[of req U T s])
  case invalid
  then show ?thesis using assms(4) by auto
next
  case (thrown xs bs s2 e)
  then show ?thesis using assms(4) make_batches_result(6)[OF thrown(2)] by auto
next
  case (stored xs bs s2 q)
  let ?s4 = "recorded U s bs q s2"
  have st: "ingestionStore s2 = ingestionStore s" using make_batches_result(6)[OF stored(2)] by simp
  have "ingestionStore ?s4 = ingestionStore s2 @
      [(U (uuid_calls s), \<lparr>ingestion_id = U (uuid_calls s), ingestion_status = yet_to_start, batches = bs\<rparr>)]"
    using store_set_fresh[OF store_inv_pushed(2)[OF assms(1,2) stored(2)]] by (simp add: recorded_def)
  then have m: "(k, d) \<in> set (ingestionStore ?s4)" using assms(4) st by simp
  show ?thesis
  proof (cases "isProcessing s2")
    case True
    then show ?thesis using m stored(4) by auto
  next
    case False
    have s4: "store_inv U ?s4" using store_inv_recorded[OF assms(1,2) stored(2)] .
    have "sched_inv s2" using sched_inv_pushed[OF _ stored(2)] assms(3) by simp
    then have "\<forall>a \<in> set (processingQueue ?s4). a < length (heap ?s4)"
      using sort_queue_permutes[OF stored(3)] by (simp add: recorded_def sched_inv_def)
    from processBatches_keeps[OF s4 this m] show ?thesis using stored(4) False by simp
  qed
qed

lemma ingest_records:
  assumes "inj U" and "store_inv U s" and "sched_inv s" and "fst (ingest U T req s) = Inr k"
  shows "\<exists>d. (k, d) \<in> set (ingestionStore (snd (ingest U T req s))) \<and>
             batches d = [length (heap s)..<length (heap (snd (ingest U T req s)))]"
proof (cases rule: ingest_cases[of req U T s])
  case invalid
  then show ?thesis using assms(4) by simp
next
  case (thrown xs bs s2 e)
  then show ?thesis using assms(4) by simp
next
  case (stored xs bs s2 q)
  let ?s4 = "recorded U s bs q s2"
  let ?v = "\<lparr>ingestion_id = U (uuid_calls s), ingestion_status = yet_to_start, batches = bs\<rparr>"
  have k: "k = U (uuid_calls s)" using assms(4) stored(4) by simp
  have bs: "bs = [length (heap s)..<length (heap s2)]"
    using make_batches_result(1,2)[OF stored(2)] by simp
  have "ingestionStore ?s4 = ingestionStore s2 @ [(U (uuid_calls s), ?v)]"
    using store_set_fresh[OF store_inv_pushed(2)[OF assms(1,2) stored(2)]] by (simp add: recorded_def)
  then have m: "(k, ?v) \<in> set (ingestionStore ?s4)" using k by simp
  have h4: "heap ?s4 = heap s2" by (simp add: recorded_def)
  show ?thesis
  proof (cases "isProcessing s2")
    case True
    then show ?thesis using m stored(4) bs h4 by auto
  next
    case False
    have s4: "store_inv U ?s4" using store_inv_recorded[OF assms(1,2) stored(2)] .
    have "sched_inv s2" using sched_inv_pushed[OF _ stored(2)] assms(3) by simp
    then have "\<forall>a \<in> set (processingQueue ?s4). a < length (heap ?s4)"
      using sort_queue_permutes[OF stored(3)] by (simp add: recorded_def sched_inv_def)
    from processBatches_keeps[OF s4 this m] show ?thesis
      using stored(4) False bs h4 by (simp add: processBatches_length)
  qed
qed

lemma step_keeps:
  assumes "inj U" and "store_inv U s" and "sched_inv s" and "(k, d) \<in> set (ingestionStore s)"
  shows "\<exists>d'. (k, d') \<in> set (ingestionStore (step U T s e)) \<and> batches d' = batches d"
proof (cases e)
  case (Ingest req)
  then show ?thesis using ingest_keeps[OF assms, of T req] by simp
next
  case (FetchesSettled i)
  then show ?thesis using after_fetch_keeps[OF assms(2,3,4), of i] by simp
next
  case (CooldownElapsed i)
  then show ?thesis using after_cooldown_keeps[OF assms(2,3,4), of i] by simp
qed

lemma run_keeps:
  assumes "inj U" and "(k, d) \<in> set (ingestionStore (run U T es))"
  shows "\<exists>d'. (k, d') \<in> set (ingestionStore (run U T (es @ es'))) \<and> batches d' = batches d"
proof (induction es' rule: rev_induct)
  case Nil
  then show ?case using assms(2) by auto
next
  case (snoc e es')
  then obtain d' where d': "(k, d') \<in> set (ingestionStore (run U T (es @ es')))"
    "batches d' = batches d" by blast
  have "store_inv U (run U T (es @ es'))" using assms(1) by (rule store_inv_run)
  from step_keeps[OF assms(1) this sched_inv_run d'(1), of T e] d'(2) show ?case
    by (simp add: run_snoc flip: append_assoc)
qed

text \<open>What every later status query shows of a request that was answered with an id.\<close>

lemma accepted_published:
  fixes U T req es es' k
  defines "S \<equiv> run U T (es @ Ingest req # es')"
  defines "lo \<equiv> length (heap (run U T es))"
  defines "hi \<equiv> length (heap (step U T (run U T es) (Ingest req)))"
  assumes inj: "inj U" and ok: "fst (ingest U T req (run U T es)) = Inr k"
  shows "\<exists>v. get_status k S = Inr v \<and> view_id v = k \<and>
             view_batches v = map (\<lambda>a. heap S ! a) [lo..<hi] \<and>
             (\<forall>b. AwaitFetch b \<in> set (activations S) \<and> lo \<le> b \<and> b < hi \<longrightarrow>
                view_status v = triggered)"
proof -
  let ?s = "run U T es"
  have sto: "store_inv U ?s" using inj by (rule store_inv_run)
  from ingest_records[OF inj sto sched_inv_run ok] obtain d where
    d: "(k, d) \<in> set (ingestionStore (run U T (es @ [Ingest req])))" "batches d = [lo..<hi]"
    by (auto simp: run_snoc lo_def hi_def)
  from run_keeps[OF inj d(1), of es'] d(2) obtain d' where
    d': "(k, d') \<in> set (ingestionStore S)" "batches d' = [lo..<hi]"
    by (auto simp: S_def)
  have stS: "store_inv U S" unfolding S_def using inj by (rule store_inv_run)
  have scS: "sched_inv S" unfolding S_def by (rule sched_inv_run)
  from stS have "distinct (map fst (ingestionStore S))" by (simp add: store_inv_def ids_inv_def)
  then have m: "map_of (ingestionStore S) k = Some d'" using d'(1) by simp
  from stS d'(1) have i: "ingestion_id d' = k"
    and e: "ingestion_status d' = expected_status (heap S) (batches d')"
    by (force simp: store_inv_def statuses_def)+
  let ?v = "\<lparr>view_id = ingestion_id d', view_status = ingestion_status d',
             view_batches = map (\<lambda>b. heap S ! b) (batches d')\<rparr>"
  have g: "get_status k S = Inr ?v" using m by (simp add: get_status_def)
  have t: "ingestion_status d' = triggered"
    if "AwaitFetch b \<in> set (activations S)" "lo \<le> b" "b < hi" for b
  proof -
    from scS that(1) have bt: "status (heap S ! b) = triggered" by (auto simp: sched_inv_def)
    have in_d: "b \<in> set (batches d')" using d'(2) that(2,3) by simp
    from overall_status_triggered[OF in_d bt] e in_d show ?thesis
      by (auto simp: expected_status_def)
  qed
  show ?thesis using g i d'(2) t by auto
qed

text \<open>
  Claim C5, as amended. A step of the process never shrinks the heap; it leaves the status of
  a batch as it is or moves it from \<open>yet_to_start\<close> to \<open>triggered\<close> or from \<open>triggered\<close> to
  \<open>completed\<close>; and a batch it creates is not completed at the end of the step. While the
  fetches of a batch are awaited the batch is triggered, and (ids never repeating) every
  response of the status query that shows the batch shows it triggered, in an ingestion
  whose status is triggered. A request that is answered with an id is shown by every later
  status query for that id with exactly the batches it created, and with the status
  triggered while the fetches of one of them are awaited: for the batches of such a request
  the status is published before the fetches begin.
\<close>

theorem status_only_advances:
  fixes U T es e
  defines "s \<equiv> run U T es" and "s' \<equiv> step U T (run U T es) e"
  shows "length (heap s) \<le> length (heap s') \<and>
         (\<forall>a < length (heap s). advances (status (heap s ! a)) (status (heap s' ! a))) \<and>
         (\<forall>a < length (heap s'). length (heap s) \<le> a \<longrightarrow> status (heap s' ! a) \<noteq> completed) \<and>
         (\<forall>b. AwaitFetch b \<in> set (activations s') \<longrightarrow>
            b < length (heap s') \<and> status (heap s' ! b) = triggered) \<and>
         (inj U \<longrightarrow>
            (\<forall>b k v x. AwaitFetch b \<in> set (activations s') \<and> get_status k s' = Inr v \<and>
               x \<in> set (view_batches v) \<and> batch_id x = batch_id (heap s' ! b) \<longrightarrow>
               status x = triggered \<and> view_status v = triggered)) \<and>
         (inj U \<longrightarrow>
            (\<forall>req k es'. e = Ingest req \<and> fst (ingest U T req s) = Inr k \<longrightarrow>
               (\<exists>v. get_status k (run U T (es @ e # es')) = Inr v \<and> view_id v = k \<and>
                  view_batches v =
                    map (\<lambda>a. heap (run U T (es @ e # es')) ! a) [length (heap s)..<length (heap s')] \<and>
                  (\<forall>b. AwaitFetch b \<in> set (activations (run U T (es @ e # es'))) \<and>
                       length (heap s) \<le> b \<and> b < length (heap s') \<longrightarrow>
                     view_status v = triggered))))"
proof -
  have inv: "sched_inv s" unfolding s_def by (rule sched_inv_run)
  have s': "s' = run U T (es @ [e])" by (simp add: s'_def run_snoc)
  have inv': "sched_inv s'" unfolding s' by (rule sched_inv_run)
  have 1: "length (heap s) \<le> length (heap s')"
  proof (cases "heap s")
    case Nil
    then show ?thesis by simp
  next
    case (Cons x xs)
    then have "0 < length (heap s)" by simp
    from step_status[OF inv this, of U T e] show ?thesis by (simp add: s'_def s_def)
  qed
  have 2: "advances (status (heap s ! a)) (status (heap s' ! a))" if "a < length (heap s)" for a
    using step_status[OF inv that, of U T e] by (simp add: s'_def s_def)
  have 3: "status (heap s' ! a) \<noteq> completed" if "a < length (heap s')" "length (heap s) \<le> a" for a
    using step_new_status[OF inv that(2), of U T e] that(1) by (simp add: s'_def s_def)
  have 4: "b < length (heap s') \<and> status (heap s' ! b) = triggered"
    if "AwaitFetch b \<in> set (activations s')" for b
    using inv' that by (auto simp: sched_inv_def)
  have 5: "status x = triggered \<and> view_status v = triggered"
    if "inj U" "AwaitFetch b \<in> set (activations s')" "get_status k s' = Inr v"
      "x \<in> set (view_batches v)" "batch_id x = batch_id (heap s' ! b)" for b k v x
  proof -
    have "store_inv U s'" unfolding s' using that(1) by (rule store_inv_run)
    from in_flight_published[OF inv' this that(2,3,4,5)] show ?thesis .
  qed
  have 6: "\<exists>v. get_status k (run U T (es @ e # es')) = Inr v \<and> view_id v = k \<and>
             view_batches v =
               map (\<lambda>a. heap (run U T (es @ e # es')) ! a) [length (heap s)..<length (heap s')] \<and>
             (\<forall>b. AwaitFetch b \<in> set (activations (run U T (es @ e # es'))) \<and>
                  length (heap s) \<le> b \<and> b < length (heap s') \<longrightarrow>
                view_status v = triggered)"
    if "inj U" "e = Ingest req" "fst (ingest U T req s) = Inr k" for req k es'
  proof -
    have "fst (ingest U T req (run U T es)) = Inr k" using that(3) by (simp add: s_def)
    from accepted_published[OF that(1) this, of es'] show ?thesis
      by (simp add: s_def s'_def that(2))
  qed
  show ?thesis using 1 2 3 4 5 6 by blast
qed

lemma inj_U0: "inj U0"
proof (rule injI)
  fix x y assume "U0 x = U0 y"
  then have "length (U0 x) = length (U0 y)" by simp
  then show "x = y" by (simp add: U0_def)
qed

theorem status_only_advances_witness:
  "status (heap (run U0 T0 two_batches) ! 0) = triggered \<and>
   status (heap (step U0 T0 (run U0 T0 two_batches) (FetchesSettled 0)) ! 0) = completed \<and>
   advances (status (heap (run U0 T0 two_batches) ! 0))
     (status (heap (step U0 T0 (run U0 T0 two_batches) (FetchesSettled 0)) ! 0)) \<and>
   inj U0 \<and>
   fst (ingest U0 T0 (post (map JNum [1, 2, 3, 4]) ''MEDIUM'') (run U0 T0 [])) = Inr (U0 0) \<and>
   activations (run U0 T0 two_batches) = [AwaitFetch 0] \<and>
   (\<exists>v. get_status (U0 0) (run U0 T0 two_batches) = Inr v \<and> view_id v = U0 0 \<and>
        view_batches v = map (\<lambda>a. heap (run U0 T0 two_batches) ! a) [0, 1] \<and>
        view_status v = triggered) \<and>
   get_status (U0 0) (run U0 T0 two_batches) =
     Inr \<lparr>view_id = U0 0, view_status = triggered,
          view_batches =
            [\<lparr>batch_id = U0 1, ids = [JNum 1, JNum 2, JNum 3], status = triggered,
              priority = JStr ''MEDIUM'', created_time = 1000\<rparr>,
             \<lparr>batch_id = U0 2, ids = [JNum 4], status = yet_to_start,
              priority = JStr ''MEDIUM'', created_time = 1001\<rparr>]\<rparr>"
proof -
  let ?req = "post (map JNum [1, 2, 3, 4]) ''MEDIUM''"
  let ?s0 = "run U0 T0 two_batches"
  let ?s1 = "step U0 T0 (run U0 T0 two_batches) (FetchesSettled 0)"
  have e: "status (heap ?s0 ! 0) = triggered" "status (heap ?s1 ! 0) = completed"
    "length (heap ?s0) = 2" "activations ?s0 = [AwaitFetch 0]"
    "fst (ingest U0 T0 ?req (run U0 T0 [])) = Inr (U0 0)"
    "length (heap (run U0 T0 [])) = 0"
    "length (heap (step U0 T0 (run U0 T0 []) (Ingest ?req))) = 2"
    by code_simp+
  have r: "[] @ Ingest ?req # [] = two_batches" by (simp add: two_batches_def)
  have g: "get_status (U0 0) ?s0 =
     Inr \<lparr>view_id = U0 0, view_status = triggered,
          view_batches =
            [\<lparr>batch_id = U0 1, ids = [JNum 1, JNum 2, JNum 3], status = triggered,
              priority = JStr ''MEDIUM'', created_time = 1000\<rparr>,
             \<lparr>batch_id = U0 2, ids = [JNum 4], status = yet_to_start,
              priority = JStr ''MEDIUM'', created_time = 1001\<rparr>]\<rparr>"
    by code_simp
  have a: "advances (status (heap ?s0 ! 0)) (status (heap ?s1 ! 0))"
    using status_only_advances[of U0 T0 two_batches "FetchesSettled 0"] e(3) by simp
  note t = status_only_advances[of U0 T0 "[]" "Ingest ?req"]
  from t have "inj U0 \<longrightarrow>
      (\<forall>req k es'. Ingest ?req = Ingest req \<and> fst (ingest U0 T0 req (run U0 T0 [])) = Inr k \<longrightarrow>
         (\<exists>v. get_status k (run U0 T0 ([] @ Ingest ?req # es')) = Inr v \<and> view_id v = k \<and>
            view_batches v =
              map (\<lambda>a. heap (run U0 T0 ([] @ Ingest ?req # es')) ! a)
                [length (heap (run U0 T0 []))..<length (heap (step U0 T0 (run U0 T0 []) (Ingest ?req)))] \<and>
            (\<forall>b. AwaitFetch b \<in> set (activations (run U0 T0 ([] @ Ingest ?req # es'))) \<and>
                 length (heap (run U0 T0 [])) \<le> b \<and>
                 b < length (heap (step U0 T0 (run U0 T0 []) (Ingest ?req))) \<longrightarrow>
               view_status v = triggered)))"
    by (elim conjE)
  with inj_U0 e(5) have "\<exists>v. get_status (U0 0) (run U0 T0 ([] @ Ingest ?req # [])) = Inr v \<and>
        view_id v = U0 0 \<and>
        view_batches v =
          map (\<lambda>a. heap (run U0 T0 ([] @ Ingest ?req # [])) ! a)
            [length (heap (run U0 T0 []))..<length (heap (step U0 T0 (run U0 T0 []) (Ingest ?req)))] \<and>
        (\<forall>b. AwaitFetch b \<in> set (activations (run U0 T0 ([] @ Ingest ?req # []))) \<and>
             length (heap (run U0 T0 [])) \<le> b \<and>
             b < length (heap (step U0 T0 (run U0 T0 []) (Ingest ?req))) \<longrightarrow>
           view_status v = triggered)"
    by blast
  then have p: "\<exists>v. get_status (U0 0) ?s0 = Inr v \<and> view_id v = U0 0 \<and>
        view_batches v = map (\<lambda>a. heap ?s0 ! a) [0, 1] \<and> view_status v = triggered"
    unfolding r e(6,7) using e(4) by (auto simp: upt_conv_Cons)
  show ?thesis using e(1,2,4,5) a g p inj_U0 by simp
qed

text \<open>
  Claim C5 as stated fails for a batch of a request that failed in the sort. Its batches were
  pushed before the comparator threw and nothing was stored: the loop later takes such a
  batch from the queue, sets it to triggered and starts its fetches, while the store holds
  only the ingestion of the first request and no status query shows the batch.
\<close>

theorem unpublished_in_flight_counterexample:
  "fst (ingest U0 T0 no_key_post (run U0 T0 one_batch)) = Inl TypeError \<and>
   activations (run U0 T0 (poisoned @ [FetchesSettled 0, CooldownElapsed 0])) = [AwaitFetch 1] \<and>
   status (heap (run U0 T0 (poisoned @ [FetchesSettled 0, CooldownElapsed 0])) ! 1) = triggered \<and>
   ingestionStore (run U0 T0 (poisoned @ [FetchesSettled 0, CooldownElapsed 0])) =
     [(U0 0, \<lparr>ingestion_id = U0 0, ingestion_status = completed, batches = [0]\<rparr>)]"
  by code_simp

section \<open>The cooldown\<close>

lemma after_fetch_other:
  assumes "activations s = [AwaitCooldown]"
  shows "after_fetch i s = s"
  using assms by (cases i) (simp_all add: after_fetch_def)

lemma after_cooldown_other:
  assumes "activations s = [AwaitFetch b]"
  shows "after_cooldown i s = s"
  using assms by (cases i) (simp_all add: after_cooldown_def)

lemma after_index_other:
  assumes "length (activations s) \<le> 1" and "i \<noteq> 0"
  shows "after_fetch i s = s" and "after_cooldown i s = s"
  using assms by (simp_all add: after_fetch_def after_cooldown_def)

lemma after_fetch_first:
  assumes "activations s = [AwaitFetch b]"
  shows "activations (after_fetch 0 s) = [AwaitCooldown]"
    and "isProcessing (after_fetch 0 s) = isProcessing s"
    and "processingQueue (after_fetch 0 s) = processingQueue s"
  using assms by (simp_all add: after_fetch_def)

lemma after_cooldown_first:
  assumes "activations s = [AwaitCooldown]"
  shows "processingQueue s = [] \<Longrightarrow> activations (after_cooldown 0 s) = [] \<and> \<not> isProcessing (after_cooldown 0 s)"
    and "processingQueue s = b # q \<Longrightarrow>
           activations (after_cooldown 0 s) = [AwaitFetch b] \<and> processingQueue (after_cooldown 0 s) = q"
  using assms by (simp_all add: after_cooldown_def loop_head_def)

text \<open>
  Claim C4, as amended. A step that completes a batch is the continuation of the one
  activation after its fetches, and it always leaves that activation waiting for the
  cooldown, with the flag set and the queue untouched, whether the queue is empty or not.
  While the activation waits for the cooldown nothing but the lapse of the cooldown moves it;
  only then is the queue inspected: with an empty queue the loop ends and clears the flag,
  otherwise the front batch is taken and its fetches are awaited.
\<close>

theorem cooldown_after_every_batch:
  fixes U T es e
  defines "s \<equiv> run U T es" and "s' \<equiv> step U T (run U T es) e"
  shows "(\<forall>b < length (heap s).
            status (heap s ! b) = triggered \<and> status (heap s' ! b) = completed \<longrightarrow>
            e = FetchesSettled 0 \<and> activations s' = [AwaitCooldown] \<and> isProcessing s' \<and>
            processingQueue s' = processingQueue s) \<and>
         (activations s = [AwaitCooldown] \<longrightarrow>
            (e \<noteq> CooldownElapsed 0 \<longrightarrow> activations s' = [AwaitCooldown] \<and> isProcessing s') \<and>
            (e = CooldownElapsed 0 \<and> processingQueue s = [] \<longrightarrow>
               activations s' = [] \<and> \<not> isProcessing s') \<and>
            (\<forall>b q. e = CooldownElapsed 0 \<and> processingQueue s = b # q \<longrightarrow>
               activations s' = [AwaitFetch b] \<and> processingQueue s' = q))"
proof -
  have inv: "sched_inv s" unfolding s_def by (rule sched_inv_run)
  then have len: "length (activations s) \<le> 1" by (auto simp: sched_inv_def)
  have A: "e = FetchesSettled 0 \<and> activations s' = [AwaitCooldown] \<and> isProcessing s' \<and>
           processingQueue s' = processingQueue s"
    if b: "b < length (heap s)" and t: "status (heap s ! b) = triggered"
      and c: "status (heap s' ! b) = completed" for b
  proof -
    from inv b t have a: "activations s = [AwaitFetch b]" and p: "isProcessing s"
      by (auto simp: sched_inv_def)
    show ?thesis
    proof (cases e)
      case (Ingest req)
      then show ?thesis using ingest_status[OF inv b, of U T req] t c by (simp add: s'_def s_def)
    next
      case (CooldownElapsed i)
      then show ?thesis using after_cooldown_other[OF a] t c by (simp add: s'_def s_def)
    next
      case (FetchesSettled i)
      show ?thesis
      proof (cases "i = 0")
        case False
        then show ?thesis using after_index_other(1)[OF len False] FetchesSettled t c
          by (simp add: s'_def s_def)
      next
        case True
        then show ?thesis using after_fetch_first[OF a] FetchesSettled p by (simp add: s'_def s_def)
      qed
    qed
  qed
  have B1: "activations s' = [AwaitCooldown] \<and> isProcessing s'"
    if a: "activations s = [AwaitCooldown]" and ne: "e \<noteq> CooldownElapsed 0"
  proof -
    from inv a have p: "isProcessing s" by (auto simp: sched_inv_def)
    show ?thesis
    proof (cases e)
      case (Ingest req)
      then show ?thesis using ingest_while_processing[OF p, of U T req] a by (simp add: s'_def s_def)
    next
      case (FetchesSettled i)
      then show ?thesis using after_fetch_other[OF a] a p by (simp add: s'_def s_def)
    next
      case (CooldownElapsed i)
      then have "i \<noteq> 0" using ne by simp
      from after_index_other(2)[OF len this] show ?thesis
        using CooldownElapsed a p by (simp add: s'_def s_def)
    qed
  qed
  have B2: "activations s' = [] \<and> \<not> isProcessing s'"
    if "activations s = [AwaitCooldown]" "e = CooldownElapsed 0" "processingQueue s = []"
    using after_cooldown_first(1)[OF that(1,3)] that(2) by (simp add: s'_def s_def)
  have B3: "activations s' = [AwaitFetch b] \<and> processingQueue s' = q"
    if "activations s = [AwaitCooldown]" "e = CooldownElapsed 0" "processingQueue s = b # q" for b q
    using after_cooldown_first(2)[OF that(1,3)] that(2) by (simp add: s'_def s_def)
  show ?thesis using A B1 B2 B3 by blast
qed

theorem cooldown_after_every_batch_witness:
  "status (heap (run U0 T0 one_batch) ! 0) = triggered \<and>
   status (heap (step U0 T0 (run U0 T0 one_batch) (FetchesSettled 0)) ! 0) = completed \<and>
   activations (step U0 T0 (run U0 T0 one_batch) (FetchesSettled 0)) = [AwaitCooldown] \<and>
   isProcessing (step U0 T0 (run U0 T0 one_batch) (FetchesSettled 0)) \<and>
   activations (run U0 T0 (two_batches @ [FetchesSettled 0])) = [AwaitCooldown] \<and>
   processingQueue (run U0 T0 (two_batches @ [FetchesSettled 0])) = [1] \<and>
   activations (step U0 T0 (run U0 T0 (two_batches @ [FetchesSettled 0])) (CooldownElapsed 0)) = [AwaitFetch 1] \<and>
   processingQueue (step U0 T0 (run U0 T0 (two_batches @ [FetchesSettled 0])) (CooldownElapsed 0)) = []"
proof -
  have e: "status (heap (run U0 T0 one_batch) ! 0) = triggered"
    "status (heap (step U0 T0 (run U0 T0 one_batch) (FetchesSettled 0)) ! 0) = completed"
    "length (heap (run U0 T0 one_batch)) = 1"
    "activations (run U0 T0 (two_batches @ [FetchesSettled 0])) = [AwaitCooldown]"
    "processingQueue (run U0 T0 (two_batches @ [FetchesSettled 0])) = [1]"
    by code_simp+
  from cooldown_after_every_batch[of U0 T0 one_batch "FetchesSettled 0"] e(1,2,3)
  have 1: "activations (step U0 T0 (run U0 T0 one_batch) (FetchesSettled 0)) = [AwaitCooldown] \<and>
    isProcessing (step U0 T0 (run U0 T0 one_batch) (FetchesSettled 0))"
    by simp
  from cooldown_after_every_batch[of U0 T0 "two_batches @ [FetchesSettled 0]" "CooldownElapsed 0"] e(4,5)
  have 2: "activations (step U0 T0 (run U0 T0 (two_batches @ [FetchesSettled 0])) (CooldownElapsed 0)) = [AwaitFetch 1] \<and>
    processingQueue (step U0 T0 (run U0 T0 (two_batches @ [FetchesSettled 0])) (CooldownElapsed 0)) = []"
    by simp
  show ?thesis using e 1 2 by simp
qed

text \<open>
  Claim C4 as stated fails: after the only batch of a drain has completed the queue is empty,
  yet the loop has not ended. It is suspended on the cooldown with the flag still set, and ends
  only when the cooldown has elapsed.
\<close>

theorem cooldown_after_last_batch_counterexample:
  "processingQueue (run U0 T0 (one_batch @ [FetchesSettled 0])) = [] \<and>
   status (heap (run U0 T0 (one_batch @ [FetchesSettled 0])) ! 0) = completed \<and>
   activations (run U0 T0 (one_batch @ [FetchesSettled 0])) = [AwaitCooldown] \<and>
   isProcessing (run U0 T0 (one_batch @ [FetchesSettled 0])) \<and>
   activations (run U0 T0 (one_batch @ [FetchesSettled 0, CooldownElapsed 0])) = [] \<and>
   \<not> isProcessing (run U0 T0 (one_batch @ [FetchesSettled 0, CooldownElapsed 0]))"
  by code_simp

section \<open>The status of an ingestion\<close>

lemma overall_status_words:
  "overall_status h bs = completed \<longleftrightarrow> (\<forall>a \<in> set bs. status (h ! a) = completed)"
  "overall_status h bs = triggered \<longleftrightarrow>
     \<not> (\<forall>a \<in> set bs. status (h ! a) = completed) \<and> (\<exists>a \<in> set bs. status (h ! a) = triggered)"
  "overall_status h bs = yet_to_start \<longleftrightarrow>
     \<not> (\<forall>a \<in> set bs. status (h ! a) = completed) \<and> \<not> (\<exists>a \<in> set bs. status (h ! a) = triggered)"
  by (simp_all add: overall_status_def list_all_iff list_ex_iff)

text \<open>
  Claim C2, as amended. In every state the process can reach, ids never repeating, an
  ingestion in the store that has at least one batch has the status completed exactly when
  all its batches are completed, triggered exactly when not all are completed and one is
  triggered, and yet_to_start exactly when neither is the case.
\<close>

theorem submission_status:
  assumes "inj U" and "e \<in> set (ingestionStore (run U T es))" and "batches (snd e) \<noteq> []"
  shows "(ingestion_status (snd e) = completed \<longleftrightarrow>
            (\<forall>a \<in> set (batches (snd e)). status (heap (run U T es) ! a) = completed)) \<and>
         (ingestion_status (snd e) = triggered \<longleftrightarrow>
            \<not> (\<forall>a \<in> set (batches (snd e)). status (heap (run U T es) ! a) = completed) \<and>
            (\<exists>a \<in> set (batches (snd e)). status (heap (run U T es) ! a) = triggered)) \<and>
         (ingestion_status (snd e) = yet_to_start \<longleftrightarrow>
            \<not> (\<forall>a \<in> set (batches (snd e)). status (heap (run U T es) ! a) = completed) \<and>
            \<not> (\<exists>a \<in> set (batches (snd e)). status (heap (run U T es) ! a) = triggered))"
proof -
  have "store_inv U (run U T es)" using assms(1) by (rule store_inv_run)
  then have "ingestion_status (snd e) = expected_status (heap (run U T es)) (batches (snd e))"
    using assms(2) by (simp add: store_inv_def statuses_def)
  then have "ingestion_status (snd e) = overall_status (heap (run U T es)) (batches (snd e))"
    using assms(3) by (simp add: expected_status_def)
  then show ?thesis by (simp only: overall_status_words) 
qed

theorem submission_status_witness:
  "inj U0 \<and>
   ingestionStore (run U0 T0 (two_batches @ [FetchesSettled 0])) =
     [(U0 0, \<lparr>ingestion_id = U0 0, ingestion_status = yet_to_start, batches = [0, 1]\<rparr>)] \<and>
   map status (heap (run U0 T0 (two_batches @ [FetchesSettled 0]))) = [completed, yet_to_start] \<and>
   \<not> (\<exists>a \<in> set [0, 1]. status (heap (run U0 T0 (two_batches @ [FetchesSettled 0])) ! a) = triggered)"
proof -
  let ?s = "run U0 T0 (two_batches @ [FetchesSettled 0])"
  let ?e = "(U0 0, \<lparr>ingestion_id = U0 0, ingestion_status = yet_to_start, batches = [0, 1]\<rparr>)"
  have st: "ingestionStore ?s = [?e]"
    and h: "map status (heap ?s) = [completed, yet_to_start]"
    by code_simp+
  have "?e \<in> set (ingestionStore ?s)" by (simp add: st)
  from submission_status[OF inj_U0 this]
  have "\<not> (\<exists>a \<in> set [0, 1]. status (heap ?s ! a) = triggered)" by simp
  then show ?thesis using st h inj_U0 by simp
qed

text \<open>
  Claim C2 as stated fails for an ingestion without batches. After a request with an empty
  list and a request for one identifier, whose batch has been set to triggered and
  reconciled, the store holds the first ingestion with no batch and the status yet_to_start,
  although all of its batches are completed and lines 129 to 133 would make it completed.
\<close>

theorem submission_without_batches_counterexample:
  "map (\<lambda>e. (batches (snd e), ingestion_status (snd e),
             overall_status (heap (run U0 T0 empty_then_one)) (batches (snd e))))
       (ingestionStore (run U0 T0 empty_then_one)) =
     [([], yet_to_start, completed), ([0], triggered, triggered)]"
  by code_simp

section \<open>A request with no identifiers\<close>

lemma update_entries_keeps_empty:
  "(k, d) \<in> set es \<Longrightarrow> batches d = [] \<Longrightarrow> (k, d) \<in> set (update_entries h u es)"
proof (induction es)
  case Nil
  then show ?case by simp
next
  case (Cons e es)
  obtain k' d' where e: "e = (k', d')" by (cases e)
  show ?case
  proof (cases "findIndex (\<lambda>b. batch_id (h ! b) = batch_id (h ! u)) (batches d')")
    case None
    with Cons e show ?thesis by auto
  next
    case (Some i)
    then have "batches d' \<noteq> []" by auto
    with Cons.prems e Some show ?thesis by (auto simp: Let_def)
  qed
qed

lemma store_set_keeps: "(k, d) \<in> set es \<Longrightarrow> k' \<noteq> k \<Longrightarrow> (k, d) \<in> set (store_set k' v es)"
  by (induction es) auto

lemma store_set_has: "(k, v) \<in> set (store_set k v es)"
  by (induction es) auto

lemma loop_head_keeps_empty:
  assumes "(k, d) \<in> set (ingestionStore s)" and "batches d = []"
  shows "(k, d) \<in> set (ingestionStore (fst (loop_head s)))"
  using assms by (cases "processingQueue s") (simp_all add: loop_head_def update_entries_keeps_empty)

lemma processBatches_keeps_empty:
  assumes "(k, d) \<in> set (ingestionStore s)" and "batches d = []"
  shows "(k, d) \<in> set (ingestionStore (processBatches s))"
proof -
  have "(k, d) \<in> set (ingestionStore (fst (loop_head (s\<lparr>isProcessing := True\<rparr>))))"
    using assms by (intro loop_head_keeps_empty) simp_all
  then show ?thesis by (auto simp: processBatches_def split: prod.splits option.splits)
qed

lemma after_fetch_keeps_empty:
  assumes "(k, d) \<in> set (ingestionStore s)" and "batches d = []"
  shows "(k, d) \<in> set (ingestionStore (after_fetch i s))"
  using assms by (auto simp: after_fetch_def update_entries_keeps_empty split: activation.splits)

lemma after_cooldown_keeps_empty:
  assumes "(k, d) \<in> set (ingestionStore s)" and "batches d = []"
  shows "(k, d) \<in> set (ingestionStore (after_cooldown i s))"
  using assms loop_head_keeps_empty[OF assms]
  by (auto simp: after_cooldown_def split: activation.splits prod.splits option.splits)

lemma ingest_keeps_empty:
  assumes "inj U" and "store_inv U s"
    and "(k, d) \<in> set (ingestionStore s)" and "batches d = []"
  shows "(k, d) \<in> set (ingestionStore (snd (ingest U T req s)))"
proof (cases rule: ingest_cases[of req U T s])
  case invalid
  then show ?thesis using assms(3) by simp
next
  case (thrown xs bs s2 e)
  then show ?thesis using assms(3) make_batches_result(6)[OF thrown(2)] by simp
next
  case (stored xs bs s2 q)
  have st: "ingestionStore s2 = ingestionStore s" using make_batches_result(6)[OF stored(2)] by simp
  have "U (uuid_calls s) \<noteq> k"
    using store_inv_pushed(2)[OF assms(1,2) stored(2)] assms(3) st by force
  then have "(k, d) \<in> set (ingestionStore (recorded U s bs q s2))"
    using assms(3) st by (simp add: recorded_def store_set_keeps)
  then show ?thesis
    using stored(4) processBatches_keeps_empty[OF _ assms(4)] by simp
qed

lemma step_keeps_empty:
  assumes "inj U" and "store_inv U s"
    and "(k, d) \<in> set (ingestionStore s)" and "batches d = []"
  shows "(k, d) \<in> set (ingestionStore (step U T s e))"
  using assms
  by (cases e) (simp_all add: ingest_keeps_empty after_fetch_keeps_empty after_cooldown_keeps_empty)

lemma run_append: "run U T (es @ es') = foldl (step U T) (run U T es) es'"
  by (simp add: run_def)

lemma run_keeps_empty:
  assumes "inj U" and "(k, d) \<in> set (ingestionStore (run U T es))" and "batches d = []"
  shows "(k, d) \<in> set (ingestionStore (run U T (es @ es')))"
proof (induction es' rule: rev_induct)
  case Nil
  then show ?case using assms(2) by simp
next
  case (snoc e es')
  have "store_inv U (run U T (es @ es'))" using assms(1) by (rule store_inv_run)
  from step_keeps_empty[OF assms(1) this snoc assms(3)] show ?case
    by (simp add: run_snoc flip: append_assoc)
qed

lemma get_status_empty:
  assumes "store_inv U s" and "(k, d) \<in> set (ingestionStore s)" and "batches d = []"
  shows "get_status k s = Inr \<lparr>view_id = k, view_status = yet_to_start, view_batches = []\<rparr>"
proof -
  from assms(1) have "distinct (map fst (ingestionStore s))"
    by (simp add: store_inv_def ids_inv_def)
  then have "map_of (ingestionStore s) k = Some d" using assms(2) by simp
  moreover from assms have "ingestion_id d = k" "ingestion_status d = yet_to_start"
    by (force simp: store_inv_def statuses_def expected_status_def)+
  ultimately show ?thesis using assms(3) by (simp add: get_status_def)
qed


lemma processBatches_queue: "set (processingQueue (processBatches s)) \<subseteq> set (processingQueue s)"
  by (cases "processingQueue s") (auto simp: processBatches_def loop_head_def)

lemma make_batches_none: "make_batches U T [] p 0 ([], s) = ([], s)"
  by (simp add: make_batches.simps)

text \<open>
  Claim C9, as amended. A request whose \<^verbatim>\<open>ids\<close> is the empty list is never rejected as invalid.
  It fails, with the comparator's \<open>TypeError\<close>, exactly when sorting the queue as it stands
  throws, which needs a queued batch whose priority has no property key; otherwise it succeeds
  and returns the next id drawn. It creates no batch and puts nothing into the queue. When it
  succeeds, ids never repeating, every later status query for the returned id shows an
  ingestion with no batches and the status yet_to_start, whatever happens in between.
\<close>

theorem empty_submission:
  fixes U T es req
  defines "s \<equiv> run U T es" and "r \<equiv> ingest U T req (run U T es)"
  assumes inj: "inj U" and empty: "body_ids req = Some (JArr [])"
  shows "fst r \<noteq> Inl InvalidInput \<and>
         (fst r = Inl TypeError \<longleftrightarrow> sort_queue (heap s) (processingQueue s) = Inl TypeError) \<and>
         (fst r = Inr (U (uuid_calls s)) \<longleftrightarrow> sort_queue (heap s) (processingQueue s) \<noteq> Inl TypeError) \<and>
         ((\<forall>a \<in> set (processingQueue s). ToString (priority (heap s ! a)) \<noteq> Inl TypeError) \<longrightarrow>
            fst r = Inr (U (uuid_calls s))) \<and>
         length (heap (snd r)) = length (heap s) \<and>
         set (processingQueue (snd r)) \<subseteq> set (processingQueue s) \<and>
         (fst r = Inr (U (uuid_calls s)) \<longrightarrow>
            (\<forall>es'. get_status (U (uuid_calls s)) (run U T (es @ Ingest req # es')) =
               Inr \<lparr>view_id = U (uuid_calls s), view_status = yet_to_start, view_batches = []\<rparr>))"
proof -
  let ?k = "U (uuid_calls s)"
  let ?s0 = "s\<lparr>uuid_calls := Suc (uuid_calls s)\<rparr>"
  let ?v = "\<lparr>ingestion_id = ?k, ingestion_status = yet_to_start, batches = []\<rparr>"
  have mb: "make_batches U T [] (priority_of req) 0 ([], ?s0) = ([], ?s0)"
    by (rule make_batches_none)
  show ?thesis
  proof (cases "sort_queue (heap s) (processingQueue s)")
    case (Inl e)
    then have e: "e = TypeError" by (rule sort_queue_error)
    have r: "r = (Inl TypeError, ?s0)"
      using ingest_thrown[OF empty mb, of e] Inl e by (simp add: r_def s_def)
    have "\<exists>a \<in> set (processingQueue s). ToString (priority (heap s ! a)) = Inl TypeError"
      using sort_queue_throws[OF Inl] .
    then show ?thesis using r Inl e by auto
  next
    case (Inr q)
    let ?s4 = "recorded U s [] q ?s0"
    have r: "r = (Inr ?k, if isProcessing s then ?s4 else processBatches ?s4)"
      using ingest_stored[OF empty mb, of q] Inr by (simp add: r_def s_def)
    have q: "set q = set (processingQueue s)" using sort_queue_permutes[OF Inr] by simp
    have h4: "heap ?s4 = heap s" and q4: "processingQueue ?s4 = q"
      and in4: "(?k, ?v) \<in> set (ingestionStore ?s4)"
      by (simp_all add: recorded_def store_set_has)
    have len: "length (heap (snd r)) = length (heap s)"
      using r h4 by (simp add: processBatches_heap)
    have sub: "set (processingQueue (snd r)) \<subseteq> set (processingQueue s)"
      using r q q4 processBatches_queue[of ?s4] by auto
    have "(?k, ?v) \<in> set (ingestionStore (snd r))"
      using r in4 processBatches_keeps_empty[OF in4] by simp
    then have here: "(?k, ?v) \<in> set (ingestionStore (run U T (es @ [Ingest req])))"
      by (simp add: run_snoc r_def s_def)
    have forever: "get_status ?k (run U T (es @ Ingest req # es')) =
        Inr \<lparr>view_id = ?k, view_status = yet_to_start, view_batches = []\<rparr>" for es'
    proof -
      have "(?k, ?v) \<in> set (ingestionStore (run U T ((es @ [Ingest req]) @ es')))"
        using run_keeps_empty[OF inj here] by simp
      moreover have "store_inv U (run U T ((es @ [Ingest req]) @ es'))"
        using inj by (rule store_inv_run)
      ultimately show ?thesis using get_status_empty by fastforce
    qed
    show ?thesis using r Inr len sub forever by simp
  qed
qed


theorem empty_submission_witness:
  "inj U0 \<and> body_ids empty_post = Some (JArr []) \<and>
   uuid_calls (run U0 T0 one_batch) = 2 \<and>
   sort_queue (heap (run U0 T0 one_batch)) (processingQueue (run U0 T0 one_batch)) = Inr [] \<and>
   fst (ingest U0 T0 empty_post (run U0 T0 one_batch)) = Inr (U0 2) \<and>
   get_status (U0 2) (run U0 T0 (one_batch @ Ingest empty_post # [FetchesSettled 0, CooldownElapsed 0])) =
     Inr \<lparr>view_id = U0 2, view_status = yet_to_start, view_batches = []\<rparr>"
proof -
  have e: "body_ids empty_post = Some (JArr [])"
    "uuid_calls (run U0 T0 one_batch) = 2"
    "sort_queue (heap (run U0 T0 one_batch)) (processingQueue (run U0 T0 one_batch)) = Inr []"
    by code_simp+
  from empty_submission[OF inj_U0 e(1), of T0 one_batch] e(2,3)
  have "fst (ingest U0 T0 empty_post (run U0 T0 one_batch)) = Inr (U0 2) \<and>
    (\<forall>es'. get_status (U0 2) (run U0 T0 (one_batch @ Ingest empty_post # es')) =
       Inr \<lparr>view_id = U0 2, view_status = yet_to_start, view_batches = []\<rparr>)"
    by simp
  then show ?thesis using e inj_U0 by simp
qed

text \<open>
  Claim C9 as stated fails where the queue holds two batches whose priority has no property
  key: sorting them throws, and the request with the empty list is answered with the error.
\<close>

theorem empty_submission_counterexample:
  "body_ids empty_post = Some (JArr []) \<and>
   processingQueue (run U0 T0 poisoned) = [1, 2] \<and>
   map priority (heap (run U0 T0 poisoned)) = [JStr ''MEDIUM'', no_key, no_key] \<and>
   ToString no_key = Inl TypeError \<and>
   fst (ingest U0 T0 empty_post (run U0 T0 poisoned)) = Inl TypeError"
  by code_simp

section \<open>Which requests are invalid\<close>

text \<open>
  Claim C6, as amended. The handler answers \<open>InvalidInput\<close> exactly when \<^verbatim>\<open>ids\<close> is missing or is
  not an array, and then leaves the state as it was. An array is accepted whatever its length:
  a request whose \<^verbatim>\<open>ids\<close> is the empty list is not answered with \<open>InvalidInput\<close>.
\<close>

theorem invalid_input_iff:
  fixes U T req s
  defines "r \<equiv> ingest U T req s"
  shows "(fst r = Inl InvalidInput \<longleftrightarrow> body_ids req = None \<or> \<not> isArray (body_ids req)) \<and>
         (isArray (body_ids req) \<longleftrightarrow> (\<exists>xs. body_ids req = Some (JArr xs))) \<and>
         (body_ids req = Some (JArr []) \<longrightarrow> fst r \<noteq> Inl InvalidInput) \<and>
         (fst r = Inl InvalidInput \<longrightarrow> snd r = s)"
proof -
  have none: "\<not> isArray (body_ids req)" if "body_ids req = None" using that by simp
  have 1: "fst r = Inl InvalidInput \<longleftrightarrow> \<not> isArray (body_ids req)"
  proof (cases rule: ingest_cases[of req U T s])
    case invalid
    then show ?thesis by (simp add: r_def)
  next
    case (thrown xs bs s2 e)
    then have "e = TypeError" using sort_queue_error by blast
    then show ?thesis using thrown by (simp add: r_def)
  next
    case (stored xs bs s2 q)
    then show ?thesis by (simp add: r_def)
  qed
  have 2: "snd r = s" if "fst r = Inl InvalidInput"
    using that 1 ingest_invalid[of req U T s] by (simp add: r_def)
  show ?thesis using 1 2 none isArray_iff[of "body_ids req"] by auto
qed

theorem invalid_input_iff_witness:
  "fst (ingest U0 T0 no_ids init) = Inl InvalidInput \<and>
   fst (ingest U0 T0 object_ids init) = Inl InvalidInput \<and>
   snd (ingest U0 T0 object_ids init) = init \<and>
   body_ids empty_post = Some (JArr []) \<and>
   fst (ingest U0 T0 empty_post init) \<noteq> Inl InvalidInput"
proof -
  have e: "body_ids no_ids = None" "\<not> isArray (body_ids object_ids)"
    "body_ids empty_post = Some (JArr [])"
    by (simp_all add: no_ids_def object_ids_def empty_post_def)
  from invalid_input_iff[of U0 T0 no_ids init] e(1)
  have 1: "fst (ingest U0 T0 no_ids init) = Inl InvalidInput" by simp
  from invalid_input_iff[of U0 T0 object_ids init] e(2)
  have 2: "fst (ingest U0 T0 object_ids init) = Inl InvalidInput \<and> snd (ingest U0 T0 object_ids init) = init"
    by simp
  from invalid_input_iff[of U0 T0 empty_post init] e(3)
  have 3: "fst (ingest U0 T0 empty_post init) \<noteq> Inl InvalidInput" by simp
  show ?thesis using 1 2 3 e(3) by simp
qed

text \<open>
  Claim C6 as stated fails: in the initial state a request whose \<^verbatim>\<open>ids\<close> is the empty list is
  answered with a new ingestion id, and the ingestion is stored.
\<close>

theorem empty_list_accepted_counterexample:
  "body_ids empty_post = Some (JArr []) \<and>
   ingest U0 T0 empty_post init =
     (Inr (U0 0),
      init\<lparr>ingestionStore :=
             [(U0 0, \<lparr>ingestion_id = U0 0, ingestion_status = yet_to_start, batches = []\<rparr>)],
           uuid_calls := 1\<rparr>)"
  by code_simp

section \<open>The creation time of a batch\<close>

text \<open>
  Claim C7, as amended. Every round of the loop reads the clock once: the \<open>k\<close>-th batch of a
  request carries the \<open>k\<close>-th reading taken during the request. The batches of one request
  share their \<^verbatim>\<open>created_time\<close> exactly when all those readings equal the first.
\<close>

theorem created_time_per_batch:
  assumes "make_batches U T xs p 0 ([], s) = (bs, s')"
  shows "map (\<lambda>a. created_time (heap s' ! a)) bs = map (\<lambda>k. T (clock_calls s + k)) [0..<length bs] \<and>
         clock_calls s' = clock_calls s + length bs \<and>
         ((\<forall>a \<in> set bs. \<forall>b \<in> set bs. created_time (heap s' ! a) = created_time (heap s' ! b)) \<longleftrightarrow>
          (\<forall>k < length bs. T (clock_calls s + k) = T (clock_calls s)))"
proof -
  have t: "created_time (heap s' ! (bs ! k)) = T (clock_calls s + k)" if "k < length bs" for k
    using make_batches_nth[OF assms that] by (simp add: created_def)
  have m: "map (\<lambda>a. created_time (heap s' ! a)) bs = map (\<lambda>k. T (clock_calls s + k)) [0..<length bs]"
    by (rule nth_equalityI) (simp_all add: t)
  have c: "clock_calls s' = clock_calls s + length bs"
    using make_batches_result(5)[OF assms] .
  have "(\<forall>a \<in> set bs. \<forall>b \<in> set bs. created_time (heap s' ! a) = created_time (heap s' ! b)) \<longleftrightarrow>
        (\<forall>i < length bs. \<forall>j < length bs. created_time (heap s' ! (bs ! i)) = created_time (heap s' ! (bs ! j)))"
    by (metis in_set_conv_nth)
  also have "\<dots> \<longleftrightarrow> (\<forall>i < length bs. \<forall>j < length bs. T (clock_calls s + i) = T (clock_calls s + j))"
    using t by simp
  also have "\<dots> \<longleftrightarrow> (\<forall>k < length bs. T (clock_calls s + k) = T (clock_calls s))"
  proof
    assume a: "\<forall>i < length bs. \<forall>j < length bs. T (clock_calls s + i) = T (clock_calls s + j)"
    show "\<forall>k < length bs. T (clock_calls s + k) = T (clock_calls s)"
    proof (intro allI impI)
      fix k assume k: "k < length bs"
      then have "0 < length bs" by auto
      with a k have "T (clock_calls s + k) = T (clock_calls s + 0)" by blast
      then show "T (clock_calls s + k) = T (clock_calls s)" by simp
    qed
  next
    assume "\<forall>k < length bs. T (clock_calls s + k) = T (clock_calls s)"
    then show "\<forall>i < length bs. \<forall>j < length bs. T (clock_calls s + i) = T (clock_calls s + j)"
      by simp
  qed
  finally show ?thesis using m c by simp
qed

theorem created_time_per_batch_witness:
  "fst seven_split = [0, 1, 2] \<and>
   map (\<lambda>a. created_time (heap (snd seven_split) ! a)) [0, 1, 2] = [1000, 1001, 1002] \<and>
   clock_calls (snd seven_split) = 3"
proof -
  have eq: "make_batches U0 T0 seven (JStr ''MEDIUM'') 0 ([], init) = (fst seven_split, snd seven_split)"
    by (simp add: seven_split_def)
  have c: "clock_calls init = 0" by (simp add: init_def)
  show ?thesis
    using created_time_per_batch[OF eq] c
    by (simp add: seven_split_eval upt_conv_Cons T0_def)
qed

text \<open>
  Claim C7 as stated fails when the clock advances between two rounds: the two batches of one
  ingestion carry different times.
\<close>

theorem created_time_differs_counterexample:
  "map (\<lambda>e. batches (snd e)) (ingestionStore (run U0 T0 two_batches)) = [[0, 1]] \<and>
   created_time (heap (run U0 T0 two_batches) ! 0) = 1000 \<and>
   created_time (heap (run U0 T0 two_batches) ! 1) = 1001"
  by code_simp

section \<open>The priority of a request\<close>

lemma PRIORITY_VALUES_Num:
  "PRIORITY_VALUES k = Num r \<longleftrightarrow>
     (k = ''HIGH'' \<and> r = 0) \<or> (k = ''MEDIUM'' \<and> r = 1) \<or> (k = ''LOW'' \<and> r = 2)"
  by (simp add: PRIORITY_VALUES_def)

lemma rank_iff:
  "rank p = Some r \<longleftrightarrow>
     (ToString p = Inr ''HIGH'' \<and> r = 0) \<or> (ToString p = Inr ''MEDIUM'' \<and> r = 1) \<or>
     (ToString p = Inr ''LOW'' \<and> r = 2)"
proof (cases "ToString p")
  case (Inl e)
  then show ?thesis by (simp add: rank_Some PRIORITY_VALUES_at_def)
next
  case (Inr k)
  then show ?thesis by (simp add: rank_Some PRIORITY_VALUES_at_def PRIORITY_VALUES_Num)
qed

lemma rank_None:
  "rank p = None \<longleftrightarrow> ToString p \<notin> {Inr ''HIGH'', Inr ''MEDIUM'', Inr ''LOW''}"
proof -
  have "rank p \<noteq> None \<longleftrightarrow> (\<exists>r. rank p = Some r)" by simp
  also have "\<dots> \<longleftrightarrow> ToString p \<in> {Inr ''HIGH'', Inr ''MEDIUM'', Inr ''LOW''}"
    unfolding rank_iff by blast
  finally show ?thesis by blast
qed

lemma priority_status_update:
  "priority ((h[b := (h ! b)\<lparr>status := v\<rparr>]) ! a) = priority (h ! a)"
proof (cases "b < length h")
  case True
  then show ?thesis by (cases "a = b") simp_all
next
  case False
  then have "length h \<le> b" by simp
  then show ?thesis by (simp add: list_update_beyond)
qed

lemma created_time_status_update:
  "created_time ((h[b := (h ! b)\<lparr>status := v\<rparr>]) ! a) = created_time (h ! a)"
proof (cases "b < length h")
  case True
  then show ?thesis by (cases "a = b") simp_all
next
  case False
  then have "length h \<le> b" by simp
  then show ?thesis by (simp add: list_update_beyond)
qed

lemma loop_head_priority: "priority (heap (fst (loop_head s)) ! a) = priority (heap s ! a)"
  by (cases "processingQueue s") (simp_all add: loop_head_heap priority_status_update)

lemma processBatches_priority: "priority (heap (processBatches s) ! a) = priority (heap s ! a)"
  using loop_head_priority[of "s\<lparr>isProcessing := True\<rparr>" a] by (simp add: processBatches_heap)

text \<open>
  Claim C10, as amended. A request whose \<^verbatim>\<open>ids\<close> is an array is never rejected as invalid,
  whatever its priority; it creates \<open>\<lceil>N / 3\<rceil>\<close> batches, and each carries the priority of the
  request unchanged (\<^verbatim>\<open>MEDIUM\<close> when the request has none). The request succeeds or fails with
  the comparator's \<open>TypeError\<close>; it succeeds when every priority in the queue and its own has a
  property key. The stored priority has no rank exactly when its property key is none of
  \<^verbatim>\<open>HIGH\<close>, \<^verbatim>\<open>MEDIUM\<close> and \<^verbatim>\<open>LOW\<close>.
\<close>

theorem priority_not_validated:
  fixes U T es req xs
  defines "s \<equiv> run U T es" and "r \<equiv> ingest U T req (run U T es)"
  assumes ids: "body_ids req = Some (JArr xs)"
  shows "fst r \<noteq> Inl InvalidInput \<and>
         length (heap (snd r)) = length (heap s) + (length xs + 2) div 3 \<and>
         (\<forall>a < length (heap (snd r)). length (heap s) \<le> a \<longrightarrow>
            priority (heap (snd r) ! a) = priority_of req) \<and>
         (fst r = Inr (U (uuid_calls s)) \<or> fst r = Inl TypeError) \<and>
         ((\<forall>a \<in> set (processingQueue s). ToString (priority (heap s ! a)) \<noteq> Inl TypeError) \<and>
          ToString (priority_of req) \<noteq> Inl TypeError \<longrightarrow> fst r = Inr (U (uuid_calls s))) \<and>
         (rank (priority_of req) = None \<longleftrightarrow>
            ToString (priority_of req) \<notin> {Inr ''HIGH'', Inr ''MEDIUM'', Inr ''LOW''})"
proof -
  let ?s0 = "s\<lparr>uuid_calls := Suc (uuid_calls s)\<rparr>"
  obtain bs s2 where mb: "make_batches U T xs (priority_of req) 0 ([], ?s0) = (bs, s2)"
    by (cases "make_batches U T xs (priority_of req) 0 ([], ?s0)")
  note m = make_batches_result[OF mb]
  have n: "chunks_from (length xs) 0 = (length xs + 2) div 3" by (simp add: chunks_from_def)
  have h2: "length (heap s2) = length (heap s) + (length xs + 2) div 3"
    using m(2) n by simp
  have p2: "priority (heap s2 ! a) = priority_of req"
    if "a < length (heap s2)" "length (heap s) \<le> a" for a
    using that m(2) by (simp add: nth_append created_def)
  have old: "heap s2 ! a = heap s ! a" if "a < length (heap s)" for a
    using that m(2) by (simp add: nth_append)
  have inv: "sched_inv s" unfolding s_def by (rule sched_inv_run)
  have keys: "\<forall>a \<in> set (processingQueue s2). ToString (priority (heap s2 ! a)) \<noteq> Inl TypeError"
    if q: "\<forall>a \<in> set (processingQueue s). ToString (priority (heap s ! a)) \<noteq> Inl TypeError"
      and p: "ToString (priority_of req) \<noteq> Inl TypeError"
  proof
    fix a assume "a \<in> set (processingQueue s2)"
    then consider "a \<in> set (processingQueue s)" | "a \<in> set bs" using m(3) by auto
    then show "ToString (priority (heap s2 ! a)) \<noteq> Inl TypeError"
    proof cases
      case 1
      then have "a < length (heap s)" using inv by (simp add: sched_inv_def)
      then show ?thesis using q 1 old by simp
    next
      case 2
      then have "a < length (heap s2)" "length (heap s) \<le> a" using m(1) h2 n by auto
      then show ?thesis using p2 p by simp
    qed
  qed
  show ?thesis
  proof (cases "sort_queue (heap s2) (processingQueue s2)")
    case (Inl e)
    then have e: "e = TypeError" by (rule sort_queue_error)
    have r: "r = (Inl TypeError, s2)"
      using ingest_thrown[OF ids mb Inl] e by (simp add: r_def s_def)
    have "\<exists>a \<in> set (processingQueue s2). ToString (priority (heap s2 ! a)) = Inl TypeError"
      using sort_queue_throws[OF Inl] .
    then have "\<not> ((\<forall>a \<in> set (processingQueue s). ToString (priority (heap s ! a)) \<noteq> Inl TypeError) \<and>
          ToString (priority_of req) \<noteq> Inl TypeError)"
      using keys by blast
    then have c5: "(\<forall>a \<in> set (processingQueue s). ToString (priority (heap s ! a)) \<noteq> Inl TypeError) \<and>
          ToString (priority_of req) \<noteq> Inl TypeError \<longrightarrow> fst r = Inr (U (uuid_calls s))"
      by blast
    have c1: "fst r \<noteq> Inl InvalidInput" and c4: "fst r = Inr (U (uuid_calls s)) \<or> fst r = Inl TypeError"
      and c2: "length (heap (snd r)) = length (heap s) + (length xs + 2) div 3"
      using r h2 by simp_all
    have c3: "\<forall>a < length (heap (snd r)). length (heap s) \<le> a \<longrightarrow>
            priority (heap (snd r) ! a) = priority_of req"
      using r p2 by simp
    show ?thesis using c1 c2 c3 c4 c5 rank_None[of "priority_of req"] by blast
  next
    case (Inr q)
    let ?s4 = "recorded U s bs q s2"
    have r: "r = (Inr (U (uuid_calls s)), if isProcessing s2 then ?s4 else processBatches ?s4)"
      using ingest_stored[OF ids mb Inr] by (simp add: r_def s_def)
    have h4: "heap ?s4 = heap s2" by (simp add: recorded_def)
    have len: "length (heap (snd r)) = length (heap s2)"
      using r h4 by (simp add: processBatches_heap)
    have pr: "priority (heap (snd r) ! a) = priority (heap s2 ! a)" for a
      using r h4 processBatches_priority[of ?s4 a] by simp
    have c1: "fst r \<noteq> Inl InvalidInput" and c4: "fst r = Inr (U (uuid_calls s))"
      using r by simp_all
    have c2: "length (heap (snd r)) = length (heap s) + (length xs + 2) div 3"
      using len h2 by simp
    have c3: "\<forall>a < length (heap (snd r)). length (heap s) \<le> a \<longrightarrow>
            priority (heap (snd r) ! a) = priority_of req"
      using len pr p2 by simp
    show ?thesis using c1 c2 c3 c4 rank_None[of "priority_of req"] by blast
  qed
qed


theorem priority_not_validated_witness:
  "body_ids urgent_post = Some (JArr (map JNum [1, 2, 3, 4])) \<and>
   priority_of urgent_post = JStr ''URGENT'' \<and>
   processingQueue (run U0 T0 one_batch) = [] \<and>
   fst (ingest U0 T0 urgent_post (run U0 T0 one_batch)) = Inr (U0 2) \<and>
   map priority (heap (snd (ingest U0 T0 urgent_post (run U0 T0 one_batch)))) =
     [JStr ''MEDIUM'', JStr ''URGENT'', JStr ''URGENT''] \<and>
   rank (JStr ''URGENT'') = None"
proof -
  have e: "body_ids urgent_post = Some (JArr (map JNum [1, 2, 3, 4]))"
    "priority_of urgent_post = JStr ''URGENT''"
    "processingQueue (run U0 T0 one_batch) = []"
    "uuid_calls (run U0 T0 one_batch) = 2"
    "map priority (heap (snd (ingest U0 T0 urgent_post (run U0 T0 one_batch)))) =
       [JStr ''MEDIUM'', JStr ''URGENT'', JStr ''URGENT'']"
    by code_simp+
  from priority_not_validated[OF e(1), of U0 T0 one_batch] e(2,3,4)
  have "fst (ingest U0 T0 urgent_post (run U0 T0 one_batch)) = Inr (U0 2) \<and>
        rank (JStr ''URGENT'') = None"
    by simp
  then show ?thesis using e by simp
qed

text \<open>
  Claim C10 as stated fails twice. A request for four identifiers whose priority is an object
  with a property \<^verbatim>\<open>toString\<close> does not succeed: its two batches are pushed, the comparator
  throws on the first read of the table, and the request is answered with the error. And the
  array that holds the string \<^verbatim>\<open>HIGH\<close>, a value outside the three names, has the rank of
  \<^verbatim>\<open>HIGH\<close>, because its property key is \<^verbatim>\<open>HIGH\<close>.
\<close>

theorem priority_not_validated_counterexample:
  "body_ids no_key_post = Some (JArr (map JNum [1, 2, 3, 4])) \<and>
   body_priority no_key_post = Some (JObj [(''toString'', JNum 1)]) \<and>
   fst (ingest U0 T0 no_key_post init) = Inl TypeError \<and>
   rank (JArr [JStr ''HIGH'']) = Some 0"
  by code_simp

section \<open>The order of dequeues\<close>

lemma before_status_update:
  "before ((h[b := (h ! b)\<lparr>status := v\<rparr>]) ! a) ((h[b := (h ! b)\<lparr>status := v\<rparr>]) ! c) =
     before (h ! a) (h ! c)"
  unfolding before_def priority_status_update created_time_status_update ..

lemma ranked_status_update:
  "ranked ((h[b := (h ! b)\<lparr>status := v\<rparr>]) ! a) = ranked (h ! a)"
  by (simp add: ranked_def priority_status_update)

lemma in_order_status_update:
  "in_order (h[b := (h ! b)\<lparr>status := v\<rparr>]) q = in_order h q"
  by (simp add: in_order_def before_status_update)

lemma ranked_inv_fields [simp]:
  "ranked_inv (s\<lparr>ingestionStore := x\<rparr>) = ranked_inv s"
  "ranked_inv (s\<lparr>isProcessing := p\<rparr>) = ranked_inv s"
  "ranked_inv (s\<lparr>activations := a\<rparr>) = ranked_inv s"
  "ranked_inv (s\<lparr>uuid_calls := n\<rparr>) = ranked_inv s"
  "ranked_inv (s\<lparr>clock_calls := n\<rparr>) = ranked_inv s"
  by (simp_all add: ranked_inv_def)

lemma ranked_inv_reconcile:
  "ranked_inv (updateIngestionStatus b (set_status b v s)) = ranked_inv s"
  by (simp add: ranked_inv_def ranked_status_update in_order_status_update)

text \<open>Taking the front batch of a queue in order leaves the queue in order, and the batch
  taken is before everything left.\<close>

lemma ranked_inv_loop_head:
  assumes "ranked_inv s" and "loop_head s = (s1, r)"
  shows "ranked_inv s1"
    and "\<forall>b. r = Some (AwaitFetch b) \<longrightarrow>
           (\<forall>a \<in> set (processingQueue s1). before (heap s1 ! b) (heap s1 ! a))"
proof -
  show "ranked_inv s1"
  proof (cases "processingQueue s")
    case Nil
    then show ?thesis using assms by (auto simp: loop_head_empty)
  next
    case (Cons b q)
    have "ranked_inv (s\<lparr>processingQueue := q\<rparr>)"
      using assms(1) Cons by (simp add: ranked_inv_def in_order_Cons)
    then show ?thesis using assms(2) by (auto simp: loop_head_Cons[OF Cons] ranked_inv_reconcile)
  qed
  show "\<forall>b. r = Some (AwaitFetch b) \<longrightarrow>
           (\<forall>a \<in> set (processingQueue s1). before (heap s1 ! b) (heap s1 ! a))"
  proof (cases "processingQueue s")
    case Nil
    then show ?thesis using assms(2) by (auto simp: loop_head_empty)
  next
    case (Cons b q)
    have "\<forall>a \<in> set q. before (heap s ! b) (heap s ! a)"
      using assms(1) Cons by (simp add: ranked_inv_def in_order_Cons)
    then show ?thesis
      using assms(2) by (auto simp: loop_head_Cons[OF Cons] before_status_update)
  qed
qed


lemma ranked_inv_processBatches:
  assumes "ranked_inv s"
  shows "ranked_inv (processBatches s)"
    and "\<forall>b. AwaitFetch b \<in> set (activations (processBatches s)) \<and>
             AwaitFetch b \<notin> set (activations s) \<longrightarrow>
           (\<forall>a \<in> set (processingQueue (processBatches s)).
              before (heap (processBatches s) ! b) (heap (processBatches s) ! a))"
proof -
  obtain s1 r where lh: "loop_head (s\<lparr>isProcessing := True\<rparr>) = (s1, r)"
    by (cases "loop_head (s\<lparr>isProcessing := True\<rparr>)")
  have inv: "ranked_inv (s\<lparr>isProcessing := True\<rparr>)" using assms by simp
  note l = ranked_inv_loop_head[OF inv lh]
  have a1: "activations s1 = activations s"
    using loop_head_activations[of "s\<lparr>isProcessing := True\<rparr>"] lh by simp
  show "ranked_inv (processBatches s)"
    using l(1) lh by (cases r) (simp_all add: processBatches_def)
  show "\<forall>b. AwaitFetch b \<in> set (activations (processBatches s)) \<and>
             AwaitFetch b \<notin> set (activations s) \<longrightarrow>
           (\<forall>a \<in> set (processingQueue (processBatches s)).
              before (heap (processBatches s) ! b) (heap (processBatches s) ! a))"
  proof (cases r)
    case None
    then show ?thesis using lh a1 by (simp add: processBatches_def)
  next
    case (Some x)
    then show ?thesis using lh a1 l(2) by (auto simp: processBatches_def)
  qed
qed

lemma ranked_inv_after_fetch:
  assumes "ranked_inv s"
  shows "ranked_inv (after_fetch i s)"
    and "AwaitFetch b \<in> set (activations (after_fetch i s)) \<longrightarrow> AwaitFetch b \<in> set (activations s)"
proof -
  show "ranked_inv (after_fetch i s)"
    using assms by (simp add: after_fetch_def ranked_inv_reconcile split: activation.splits)
  have "set (activations (after_fetch i s)) \<subseteq> insert AwaitCooldown (set (activations s))"
    using set_update_subset_insert[of "activations s" i AwaitCooldown]
    by (auto simp: after_fetch_def split: activation.splits)
  then show "AwaitFetch b \<in> set (activations (after_fetch i s)) \<longrightarrow> AwaitFetch b \<in> set (activations s)"
    by auto
qed


lemma ranked_inv_after_cooldown:
  assumes "ranked_inv s"
  shows "ranked_inv (after_cooldown i s)"
    and "\<forall>b. AwaitFetch b \<in> set (activations (after_cooldown i s)) \<and>
             AwaitFetch b \<notin> set (activations s) \<longrightarrow>
           (\<forall>a \<in> set (processingQueue (after_cooldown i s)).
              before (heap (after_cooldown i s) ! b) (heap (after_cooldown i s) ! a))"
proof -
  obtain s1 r where lh: "loop_head s = (s1, r)" by (cases "loop_head s")
  note l = ranked_inv_loop_head[OF assms lh]
  have a1: "activations s1 = activations s" using loop_head_activations[of s] lh by simp
  show "ranked_inv (after_cooldown i s)"
    using assms l(1) lh
    by (cases r) (simp_all add: after_cooldown_def split: activation.splits)
  show "\<forall>b. AwaitFetch b \<in> set (activations (after_cooldown i s)) \<and>
             AwaitFetch b \<notin> set (activations s) \<longrightarrow>
           (\<forall>a \<in> set (processingQueue (after_cooldown i s)).
              before (heap (after_cooldown i s) ! b) (heap (after_cooldown i s) ! a))"
  proof (cases "i < length (activations s) \<and> activations s ! i = AwaitCooldown")
    case False
    then have "after_cooldown i s = s"
      by (auto simp: after_cooldown_def split: activation.splits)
    then show ?thesis by simp
  next
    case True
    show ?thesis
    proof (cases r)
      case None
      then have "activations (after_cooldown i s) = take i (activations s) @ drop (Suc i) (activations s)"
        using True lh a1 by (simp add: after_cooldown_def)
      then have "set (activations (after_cooldown i s)) \<subseteq> set (activations s)"
        by (auto dest: in_set_takeD in_set_dropD)
      then show ?thesis by auto
    next
      case (Some x)
      then have eq: "after_cooldown i s = s1\<lparr>activations := (activations s)[i := x]\<rparr>"
        using True lh a1 by (simp add: after_cooldown_def)
      have sub: "set ((activations s)[i := x]) \<subseteq> insert x (set (activations s))"
        by (rule set_update_subset_insert)
      show ?thesis
      proof (intro allI impI)
        fix b
        assume b: "AwaitFetch b \<in> set (activations (after_cooldown i s)) \<and>
             AwaitFetch b \<notin> set (activations s)"
        then have "x = AwaitFetch b" using eq sub by auto
        then show "\<forall>a \<in> set (processingQueue (after_cooldown i s)).
              before (heap (after_cooldown i s) ! b) (heap (after_cooldown i s) ! a)"
          using l(2) Some eq by simp
      qed
    qed
  qed
qed

text \<open>No step changes the priority of a batch, and no step removes a batch from the heap.\<close>

lemma after_fetch_priority:
  "length (heap (after_fetch i s)) = length (heap s) \<and>
   priority (heap (after_fetch i s) ! a) = priority (heap s ! a)"
  by (simp add: after_fetch_def priority_status_update split: activation.splits)

lemma after_cooldown_priority:
  "length (heap (after_cooldown i s)) = length (heap s) \<and>
   priority (heap (after_cooldown i s) ! a) = priority (heap s ! a)"
  using after_cooldown_heap[of i s] loop_head_priority[of s a] loop_head_length[of s]
  by auto

lemma ingest_priority:
  assumes "a < length (heap s)"
  shows "length (heap s) \<le> length (heap (snd (ingest U T req s))) \<and>
         priority (heap (snd (ingest U T req s)) ! a) = priority (heap s ! a)"
proof (cases rule: ingest_cases[of req U T s])
  case invalid
  then show ?thesis by simp
next
  case (thrown xs bs s2 e)
  then show ?thesis using make_batches_result(2)[OF thrown(2)] assms by (simp add: nth_append)
next
  case (stored xs bs s2 q)
  have "heap s2 ! a = heap s ! a" "length (heap s) \<le> length (heap s2)"
    using make_batches_result(2)[OF stored(2)] assms by (simp_all add: nth_append)
  then show ?thesis
    using stored(4) by (simp add: processBatches_priority processBatches_length recorded_def)
qed

lemma step_priority:
  assumes "a < length (heap s)"
  shows "length (heap s) \<le> length (heap (step U T s e)) \<and>
         priority (heap (step U T s e) ! a) = priority (heap s ! a)"
proof (cases e)
  case (Ingest req)
  then show ?thesis using ingest_priority[OF assms, of U T req] by simp
next
  case (FetchesSettled i)
  then show ?thesis using after_fetch_priority[of i s a] by simp
next
  case (CooldownElapsed i)
  then show ?thesis using after_cooldown_priority[of i s a] by simp
qed

lemma step_ranked:
  assumes "list_all ranked (heap (step U T s e))"
  shows "list_all ranked (heap s)"
proof -
  have "ranked (heap s ! a)" if "a < length (heap s)" for a
  proof -
    from step_priority[OF that, of U T e] that
    have "a < length (heap (step U T s e))"
      and "priority (heap (step U T s e) ! a) = priority (heap s ! a)" by simp_all
    then show ?thesis using assms by (auto simp: list_all_length ranked_def)
  qed
  then show ?thesis by (simp add: list_all_length)
qed

text \<open>
  A request that leaves only batches with a rank in the heap does not fail in the sort, and
  its sort puts the queue in order.
\<close>

lemma ranked_inv_ingest:
  assumes sch: "sched_inv s" and inv: "ranked_inv s"
    and rk: "list_all ranked (heap (snd (ingest U T req s)))"
  shows "ranked_inv (snd (ingest U T req s))"
    and "\<forall>b. AwaitFetch b \<in> set (activations (snd (ingest U T req s))) \<and>
             AwaitFetch b \<notin> set (activations s) \<longrightarrow>
           (\<forall>a \<in> set (processingQueue (snd (ingest U T req s))).
              before (heap (snd (ingest U T req s)) ! b) (heap (snd (ingest U T req s)) ! a))"
proof -
  have both: "ranked_inv (snd (ingest U T req s)) \<and>
     (\<forall>b. AwaitFetch b \<in> set (activations (snd (ingest U T req s))) \<and>
             AwaitFetch b \<notin> set (activations s) \<longrightarrow>
           (\<forall>a \<in> set (processingQueue (snd (ingest U T req s))).
              before (heap (snd (ingest U T req s)) ! b) (heap (snd (ingest U T req s)) ! a)))"
  proof (cases rule: ingest_cases[of req U T s])
    case invalid
    then show ?thesis using inv by simp
  next
    case (thrown xs bs s2 e)
    have s2: "sched_inv s2" using sched_inv_pushed[OF sch thrown(2)] .
    have "\<forall>a \<in> set (processingQueue s2). ranked (heap s2 ! a)"
      using s2 rk thrown(4) by (simp add: sched_inv_def list_all_length)
    from sort_queue_ranked[OF this] thrown(3) show ?thesis by auto
  next
    case (stored xs bs s2 q)
    let ?s4 = "recorded U s bs q s2"
    have s2: "sched_inv s2" using sched_inv_pushed[OF sch stored(2)] .
    have "priority (heap (snd (ingest U T req s)) ! a) = priority (heap s2 ! a)" for a
      using stored(4) by (simp add: processBatches_priority recorded_def)
    moreover have "length (heap (snd (ingest U T req s))) = length (heap s2)"
      using stored(4) by (simp add: processBatches_length recorded_def)
    ultimately have r2: "\<forall>a < length (heap s2). ranked (heap s2 ! a)"
      using rk by (simp add: list_all_length ranked_def)
    then have "\<forall>a \<in> set (processingQueue s2). ranked (heap s2 ! a)"
      using s2 by (simp add: sched_inv_def)
    from sort_queue_ranked[OF this] stored(3) have o: "in_order (heap s2) q" by auto
    have i4: "ranked_inv ?s4" using r2 o by (simp add: ranked_inv_def recorded_def)
    have a4: "activations ?s4 = activations s"
      using make_batches_result(8)[OF stored(2)] by (simp add: recorded_def)
    show ?thesis
    proof (cases "isProcessing s2")
      case True
      then show ?thesis using stored(4) i4 a4 by simp
    next
      case False
      then show ?thesis using stored(4) ranked_inv_processBatches[OF i4] a4 by simp
    qed
  qed
  show "ranked_inv (snd (ingest U T req s))" using both by blast
  show "\<forall>b. AwaitFetch b \<in> set (activations (snd (ingest U T req s))) \<and>
             AwaitFetch b \<notin> set (activations s) \<longrightarrow>
           (\<forall>a \<in> set (processingQueue (snd (ingest U T req s))).
              before (heap (snd (ingest U T req s)) ! b) (heap (snd (ingest U T req s)) ! a))"
    using both by blast
qed

lemma ranked_inv_step:
  assumes "sched_inv s" and "ranked_inv s" and "list_all ranked (heap (step U T s e))"
  shows "ranked_inv (step U T s e)"
    and "\<forall>b. AwaitFetch b \<in> set (activations (step U T s e)) \<and>
             AwaitFetch b \<notin> set (activations s) \<longrightarrow>
           (\<forall>a \<in> set (processingQueue (step U T s e)).
              before (heap (step U T s e) ! b) (heap (step U T s e) ! a))"
proof -
  show "ranked_inv (step U T s e)"
  proof (cases e)
    case (Ingest req)
    then show ?thesis using ranked_inv_ingest(1)[OF assms(1,2), of U T req] assms(3) by simp
  next
    case (FetchesSettled i)
    then show ?thesis using ranked_inv_after_fetch(1)[OF assms(2)] by simp
  next
    case (CooldownElapsed i)
    then show ?thesis using ranked_inv_after_cooldown(1)[OF assms(2)] by simp
  qed
  show "\<forall>b. AwaitFetch b \<in> set (activations (step U T s e)) \<and>
             AwaitFetch b \<notin> set (activations s) \<longrightarrow>
           (\<forall>a \<in> set (processingQueue (step U T s e)).
              before (heap (step U T s e) ! b) (heap (step U T s e) ! a))"
  proof (cases e)
    case (Ingest req)
    then show ?thesis using ranked_inv_ingest(2)[OF assms(1,2), of U T req] assms(3) by simp
  next
    case (FetchesSettled i)
    then show ?thesis using ranked_inv_after_fetch(2)[OF assms(2)] by auto
  next
    case (CooldownElapsed i)
    then show ?thesis using ranked_inv_after_cooldown(2)[OF assms(2), of i] by simp
  qed
qed

lemma ranked_inv_run: "list_all ranked (heap (run U T es)) \<Longrightarrow> ranked_inv (run U T es)"
proof (induction es rule: rev_induct)
  case Nil
  show ?case by (simp add: run_def init_def ranked_inv_def in_order_def)
next
  case (snoc e es)
  from snoc.prems have r: "list_all ranked (heap (step U T (run U T es) e))"
    by (simp add: run_snoc)
  from step_ranked[OF r] have "ranked_inv (run U T es)" by (rule snoc.IH)
  from ranked_inv_step(1)[OF sched_inv_run this r] show ?case by (simp add: run_snoc)
qed


text \<open>
  Claim C1, as amended. As long as every batch created so far has a priority with a rank (its
  property key is \<^verbatim>\<open>HIGH\<close>, \<^verbatim>\<open>MEDIUM\<close> or \<^verbatim>\<open>LOW\<close>), after every step the queue is sorted by rank
  first and creation time second, so its front batch is before every other batch in it; and
  a batch that the step has dequeued, to await its fetches, is before every batch that the
  step has left in the queue.
\<close>

theorem dequeue_in_order:
  fixes U T es e
  defines "s \<equiv> run U T es" and "s' \<equiv> step U T (run U T es) e"
  assumes ranked: "list_all ranked (heap s')"
  shows "sorted_wrt (\<lambda>a b. before (heap s' ! a) (heap s' ! b)) (processingQueue s') \<and>
         (\<forall>b q. processingQueue s' = b # q \<longrightarrow> (\<forall>a \<in> set q. before (heap s' ! b) (heap s' ! a))) \<and>
         (\<forall>b. AwaitFetch b \<in> set (activations s') \<and> AwaitFetch b \<notin> set (activations s) \<longrightarrow>
            (\<forall>a \<in> set (processingQueue s'). before (heap s' ! b) (heap s' ! a)))"
proof -
  have r: "list_all ranked (heap (step U T s e))" using ranked by (simp add: s'_def s_def)
  have sch: "sched_inv s" unfolding s_def by (rule sched_inv_run)
  have inv: "ranked_inv s" unfolding s_def using step_ranked[OF r] by (simp add: s_def ranked_inv_run)
  note st = ranked_inv_step[OF sch inv r]
  have o: "in_order (heap s') (processingQueue s')"
    using st(1) by (simp add: ranked_inv_def s'_def s_def)
  then have 1: "sorted_wrt (\<lambda>a b. before (heap s' ! a) (heap s' ! b)) (processingQueue s')"
    by (simp add: in_order_def)
  have 2: "\<forall>a \<in> set q. before (heap s' ! b) (heap s' ! a)" if "processingQueue s' = b # q" for b q
    using o that by (simp add: in_order_Cons)
  have 3: "\<forall>b. AwaitFetch b \<in> set (activations s') \<and> AwaitFetch b \<notin> set (activations s) \<longrightarrow>
            (\<forall>a \<in> set (processingQueue s'). before (heap s' ! b) (heap s' ! a))"
    using st(2) by (simp add: s'_def s_def)
  show ?thesis using 1 2 3 by blast
qed

theorem dequeue_in_order_witness:
  "list_all ranked (heap (step U0 T0 (run U0 T0 low_then_high) (CooldownElapsed 0))) \<and>
   map priority (heap (run U0 T0 low_then_high)) = [JStr ''MEDIUM'', JStr ''LOW'', JStr ''HIGH''] \<and>
   activations (run U0 T0 low_then_high) = [AwaitCooldown] \<and>
   processingQueue (run U0 T0 low_then_high) = [2, 1] \<and>
   activations (step U0 T0 (run U0 T0 low_then_high) (CooldownElapsed 0)) = [AwaitFetch 2] \<and>
   processingQueue (step U0 T0 (run U0 T0 low_then_high) (CooldownElapsed 0)) = [1] \<and>
   before (heap (step U0 T0 (run U0 T0 low_then_high) (CooldownElapsed 0)) ! 2)
     (heap (step U0 T0 (run U0 T0 low_then_high) (CooldownElapsed 0)) ! 1)"
proof -
  let ?s = "run U0 T0 low_then_high"
  let ?s' = "step U0 T0 (run U0 T0 low_then_high) (CooldownElapsed 0)"
  have e: "list_all ranked (heap ?s')"
    "map priority (heap ?s) = [JStr ''MEDIUM'', JStr ''LOW'', JStr ''HIGH'']"
    "activations ?s = [AwaitCooldown]"
    "processingQueue ?s = [2, 1]"
    "activations ?s' = [AwaitFetch 2]"
    "processingQueue ?s' = [1]"
    by code_simp+
  from dequeue_in_order[OF e(1)] e(3,5,6)
  have "before (heap ?s' ! 2) (heap ?s' ! 1)" by simp
  then show ?thesis using e by simp
qed

text \<open>
  Claim C1 as stated fails once a batch without a rank is queued. With the queue holding a
  \<^verbatim>\<open>LOW\<close> batch, then an \<^verbatim>\<open>URGENT\<close> one, the sort after the push of a \<^verbatim>\<open>HIGH\<close> batch compares
  the new batch with \<^verbatim>\<open>URGENT\<close>, gets \<^verbatim>\<open>NaN\<close>, reads it as \<open>0\<close> and leaves the batch last: the next
  dequeue takes the \<^verbatim>\<open>LOW\<close> batch while the \<^verbatim>\<open>HIGH\<close> batch waits. V8, the engine of Node.js, does
  the same: both comparisons of neighbours give \<open>0\<close>, so the array is one ascending run and
  nothing is moved.
\<close>

theorem low_before_high_counterexample:
  "map priority (heap (run U0 T0 stuck_high)) =
     [JStr ''MEDIUM'', JStr ''LOW'', JStr ''URGENT'', JStr ''HIGH''] \<and>
   map rank [JStr ''MEDIUM'', JStr ''LOW'', JStr ''URGENT'', JStr ''HIGH''] =
     [Some 1, Some 2, None, Some 0] \<and>
   activations (run U0 T0 stuck_high) = [AwaitFetch 1] \<and>
   processingQueue (run U0 T0 stuck_high) = [2, 3] \<and>
   \<not> before (heap (run U0 T0 stuck_high) ! 1) (heap (run U0 T0 stuck_high) ! 3)"
  by code_simp

end
